theory Spec2Isabelle
  imports Complex_Main
begin

section \<open>Arrays, masks and the object store\<close>

text \<open>
  The solver module works on two-dimensional numpy arrays. An array is modelled by its
  shape and a cell function on (row, column) pairs; only the cells inside the shape carry
  meaning. Pixel values are modelled as real numbers: rounding, infinities and NaN of the
  machine floats are not part of this model.

  The only exception the module can raise on two-dimensional inputs is numpy's
  \<^verbatim>\<open>IndexError\<close> (an out-of-range subscript, or a boolean index whose shape
  does not match the indexed array).
\<close>

datatype error = IndexError

record 'a ndarray =
  nrows :: nat
  ncols :: nat
  cell :: "nat \<times> nat \<Rightarrow> 'a"

definition shape :: "'a ndarray \<Rightarrow> nat \<times> nat" where
  "shape a = (nrows a, ncols a)"

text \<open>All subscripts of an array, in row-major (C) order.\<close>

definition indices :: "'a ndarray \<Rightarrow> (nat \<times> nat) list" where
  "indices a = List.product [0..<nrows a] [0..<ncols a]"

text \<open>
  \<^verbatim>\<open>np.roll(u, shift, axis)\<close>: the result at position \<open>i\<close> along the axis is the
  input at position \<open>(i - shift) mod n\<close>.
\<close>

definition roll :: "'a ndarray \<Rightarrow> int \<Rightarrow> nat \<Rightarrow> 'a ndarray" where
  "roll u s axis = u\<lparr>cell := (\<lambda>(i, j).
     if axis = 0 then cell u (nat ((int i - s) mod int (nrows u)), j)
     else cell u (i, nat ((int j - s) mod int (ncols u))))\<rparr>"

text \<open>
  \<^verbatim>\<open>a[mask]\<close> with a boolean array: the values at the true cells of the mask, in
  row-major order; numpy raises \<^verbatim>\<open>IndexError\<close> when the shapes differ. The
  statements below about arrays of different shapes are made for masks with at least one
  row and one column.
\<close>

definition masked_values :: "'a ndarray \<Rightarrow> bool ndarray \<Rightarrow> 'a list" where
  "masked_values a m = map (cell a) (filter (cell m) (indices a))"

definition bool_index :: "'a ndarray \<Rightarrow> bool ndarray \<Rightarrow> error + 'a list" where
  "bool_index a m = (if shape m = shape a then Inr (masked_values a m) else Inl IndexError)"

text \<open>
  \<^verbatim>\<open>a[mask] = vs\<close>: the values are written to the true cells of the mask, one after
  the other in row-major order.
\<close>

definition bool_assign :: "'a ndarray \<Rightarrow> bool ndarray \<Rightarrow> 'a list \<Rightarrow> error + 'a ndarray" where
  "bool_assign a m vs =
     (if shape m = shape a
      then Inr (a\<lparr>cell := fold (\<lambda>(p, v) c. c(p := v)) (zip (filter (cell m) (indices a)) vs) (cell a)\<rparr>)
      else Inl IndexError)"

text \<open>\<^verbatim>\<open>np.linalg.norm\<close> of a one-dimensional array: the square root of its dot product with itself.\<close>

definition linalg_norm :: "real list \<Rightarrow> real" where
  "linalg_norm v = sqrt (sum_list (map (\<lambda>x. x * x) v))"

text \<open>\<^verbatim>\<open>np.linalg.norm(a[mask] - b[mask])\<close>.\<close>

definition diff_norm :: "real ndarray \<Rightarrow> real ndarray \<Rightarrow> bool ndarray \<Rightarrow> real" where
  "diff_norm a b m = linalg_norm (map2 (\<lambda>x y. x - y) (masked_values a m) (masked_values b m))"

definition masked_diff :: "real ndarray \<Rightarrow> real ndarray \<Rightarrow> bool ndarray \<Rightarrow> error + real" where
  "masked_diff a b m =
     (case bool_index a m of Inl e \<Rightarrow> Inl e
      | Inr x \<Rightarrow>
          (case bool_index b m of Inl e \<Rightarrow> Inl e
           | Inr y \<Rightarrow> Inr (linalg_norm (map2 (\<lambda>x y. x - y) x y))))"

text \<open>
  Arrays are objects: a variable holds a reference, \<^verbatim>\<open>copy()\<close> makes a new object,
  and an item assignment changes the object that every alias sees. The store maps
  references to array contents; the references below \<open>fresh\<close> are in use. The grids
  live in the store. The mask is only ever read, so it is passed as a value.
\<close>

type_synonym ref = nat

record heap =
  arr :: "ref \<Rightarrow> real ndarray"
  fresh :: ref

definition alloc :: "heap \<Rightarrow> real ndarray \<Rightarrow> heap \<times> ref" where
  "alloc h a = (h\<lparr>arr := (arr h)(fresh h := a), fresh := Suc (fresh h)\<rparr>, fresh h)"

definition ndarray_copy :: "heap \<Rightarrow> ref \<Rightarrow> heap \<times> ref" where
  "ndarray_copy h r = alloc h (arr h r)"

definition store :: "heap \<Rightarrow> ref \<Rightarrow> real ndarray \<Rightarrow> heap" where
  "store h r a = h\<lparr>arr := (arr h)(r := a)\<rparr>"

section \<open>The steppers\<close>

text \<open>
  The four-neighbour average of \<^verbatim>\<open>step_jacobi_2D\<close>: the sum of the four rolled
  arrays, divided by 4.
\<close>

definition avg_neighbors :: "real ndarray \<Rightarrow> real ndarray" where
  "avg_neighbors u = u\<lparr>cell := (\<lambda>p.
     (cell (roll u 1 0) p + cell (roll u (- 1) 0) p
      + cell (roll u 1 1) p + cell (roll u (- 1) 1) p) / 4)\<rparr>"

text \<open>
  The array computed by \<^verbatim>\<open>step_jacobi_2D\<close> from the contents of \<open>u\<close>: the masked
  cells of a copy are overwritten with
  \<^verbatim>\<open>(1 - omega) * u[mask] + omega * avg_neighbors[mask]\<close>.
\<close>

definition jacobi_values :: "real ndarray \<Rightarrow> bool ndarray \<Rightarrow> real \<Rightarrow> error + real ndarray" where
  "jacobi_values u msk omega =
     (case bool_index u msk of Inl e \<Rightarrow> Inl e
      | Inr um \<Rightarrow>
          (case bool_index (avg_neighbors u) msk of Inl e \<Rightarrow> Inl e
           | Inr am \<Rightarrow> bool_assign u msk (map2 (\<lambda>x a. (1 - omega) * x + omega * a) um am)))"

text \<open>
  \<^verbatim>\<open>step_jacobi_2D\<close>: \<open>u_new\<close> is a new object; the object \<open>u\<close> is only read.
\<close>

definition step_jacobi_2D :: "heap \<Rightarrow> ref \<Rightarrow> bool ndarray \<Rightarrow> real \<Rightarrow> error + heap \<times> ref" where
  "step_jacobi_2D h u msk omega =
     (let (h1, u_new) = ndarray_copy h u in
      case jacobi_values (arr h1 u) msk omega of Inl e \<Rightarrow> Inl e
      | Inr a \<Rightarrow> Inr (store h1 u_new a, u_new))"

text \<open>
  The body of the inner loop of \<^verbatim>\<open>step_sor_2D\<close> at cell \<open>(i, j)\<close>: the four
  neighbours are read from the array as it is now, and the cell is overwritten.
  The subscripts \<open>i + 1\<close>, \<open>i - 1\<close>, \<open>j + 1\<close>, \<open>j - 1\<close> are inside \<open>u\<close> for every
  \<open>i\<close> in \<^verbatim>\<open>range(1, nrows - 1)\<close> and \<open>j\<close> in \<^verbatim>\<open>range(1, ncols - 1)\<close>.
\<close>

definition sor_cell :: "bool ndarray \<Rightarrow> real \<Rightarrow> nat \<times> nat \<Rightarrow> real ndarray \<Rightarrow> real ndarray" where
  "sor_cell msk omega p u =
     (case p of (i, j) \<Rightarrow>
        if cell msk (i, j)
        then (let avg = (cell u (i + 1, j) + cell u (i - 1, j) + cell u (i, j + 1) + cell u (i, j - 1)) / 4
              in u\<lparr>cell := (cell u)((i, j) := (1 - omega) * cell u (i, j) + omega * avg)\<rparr>)
        else u)"

text \<open>
  The two loops of \<^verbatim>\<open>step_sor_2D\<close> over the contents of \<open>u\<close>. Reading
  \<^verbatim>\<open>mask[i, j]\<close> outside the mask raises \<^verbatim>\<open>IndexError\<close>.
\<close>

fun sor_cols :: "bool ndarray \<Rightarrow> real \<Rightarrow> nat \<Rightarrow> nat list \<Rightarrow> real ndarray \<Rightarrow> error + real ndarray" where
  "sor_cols msk omega i [] u = Inr u"
| "sor_cols msk omega i (j # js) u =
     (if i < nrows msk \<and> j < ncols msk
      then sor_cols msk omega i js (sor_cell msk omega (i, j) u)
      else Inl IndexError)"

fun sor_rows :: "bool ndarray \<Rightarrow> real \<Rightarrow> nat list \<Rightarrow> nat list \<Rightarrow> real ndarray \<Rightarrow> error + real ndarray" where
  "sor_rows msk omega [] js u = Inr u"
| "sor_rows msk omega (i # is) js u =
     (case sor_cols msk omega i js u of Inl e \<Rightarrow> Inl e
      | Inr u' \<Rightarrow> sor_rows msk omega is js u')"

text \<open>
  \<^verbatim>\<open>range(1, n - 1)\<close> is empty for \<open>n \<le> 2\<close>, and so is \<open>[1..<n - 1]\<close> with the
  truncating subtraction of the natural numbers.
\<close>

definition sor_values :: "real ndarray \<Rightarrow> bool ndarray \<Rightarrow> real \<Rightarrow> error + real ndarray" where
  "sor_values u msk omega =
     sor_rows msk omega [1..<nrows u - 1] [1..<ncols u - 1] u"

text \<open>
  \<^verbatim>\<open>step_sor_2D\<close> updates the object \<open>u\<close> in place and returns the same reference.
  The sweep reads and writes no other object, so it runs on the contents of \<open>u\<close>, which
  are then stored under the same reference.
\<close>

definition step_sor_2D :: "heap \<Rightarrow> ref \<Rightarrow> bool ndarray \<Rightarrow> real \<Rightarrow> error + heap \<times> ref" where
  "step_sor_2D h u msk omega =
     (case sor_values (arr h u) msk omega of Inl e \<Rightarrow> Inl e
      | Inr a \<Rightarrow> Inr (store h u a, u))"

section \<open>The solvers\<close>

text \<open>
  The loop \<^verbatim>\<open>for it in range(max_iter)\<close> of \<^verbatim>\<open>inpaint_jacobi\<close>, as a recursion
  over the remaining loop indices.
\<close>

fun jacobi_loop ::
  "bool ndarray \<Rightarrow> real \<Rightarrow> int \<Rightarrow> real \<Rightarrow> nat list \<Rightarrow> heap \<Rightarrow> ref \<Rightarrow> error + heap \<times> ref \<times> int" where
  "jacobi_loop msk tol max_iter omega [] h u = Inr (h, u, max_iter)"
| "jacobi_loop msk tol max_iter omega (it # its) h u =
     (case step_jacobi_2D h u msk omega of Inl e \<Rightarrow> Inl e
      | Inr (h1, u_new) \<Rightarrow>
        (case masked_diff (arr h1 u_new) (arr h1 u) msk of Inl e \<Rightarrow> Inl e
         | Inr diff \<Rightarrow>
             if diff < tol then Inr (h1, u_new, int it + 1)
             else jacobi_loop msk tol max_iter omega its h1 u_new))"

definition inpaint_jacobi ::
  "heap \<Rightarrow> ref \<Rightarrow> bool ndarray \<Rightarrow> real \<Rightarrow> int \<Rightarrow> real \<Rightarrow> error + heap \<times> ref \<times> int" where
  "inpaint_jacobi h img msk tol max_iter omega =
     (let (h0, u) = ndarray_copy h img in
      jacobi_loop msk tol max_iter omega [0..<nat max_iter] h0 u)"

fun sor_loop ::
  "bool ndarray \<Rightarrow> real \<Rightarrow> int \<Rightarrow> real \<Rightarrow> nat list \<Rightarrow> heap \<Rightarrow> ref \<Rightarrow> error + heap \<times> ref \<times> int" where
  "sor_loop msk tol max_iter omega [] h u = Inr (h, u, max_iter)"
| "sor_loop msk tol max_iter omega (it # its) h u =
     (let (h1, u_old) = ndarray_copy h u in
      case step_sor_2D h1 u msk omega of Inl e \<Rightarrow> Inl e
      | Inr (h2, u') \<Rightarrow>
        (case masked_diff (arr h2 u') (arr h2 u_old) msk of Inl e \<Rightarrow> Inl e
         | Inr diff \<Rightarrow>
             if diff < tol then Inr (h2, u', int it + 1)
             else sor_loop msk tol max_iter omega its h2 u'))"

definition inpaint_sor ::
  "heap \<Rightarrow> ref \<Rightarrow> bool ndarray \<Rightarrow> real \<Rightarrow> int \<Rightarrow> real \<Rightarrow> error + heap \<times> ref \<times> int" where
  "inpaint_sor h img msk tol max_iter omega =
     (let (h0, u) = ndarray_copy h img in
      sor_loop msk tol max_iter omega [0..<nat max_iter] h0 u)"

section \<open>The search for the relaxation factor\<close>

text \<open>
  The default candidates \<^verbatim>\<open>np.arange(1.0, 2.0, 0.05)\<close>: the twenty values
  \<open>1 + 0.05 k\<close>, without the rounding of the machine floats.
\<close>

definition arange_default :: "real list" where
  "arange_default = map (\<lambda>k. 1 + real k * (5 / 100)) [0..<20]"

fun omega_loop ::
  "ref \<Rightarrow> bool ndarray \<Rightarrow> int \<Rightarrow> real \<Rightarrow> real list \<Rightarrow> heap \<Rightarrow> real option \<Rightarrow> int
     \<Rightarrow> error + heap \<times> real option \<times> int" where
  "omega_loop img msk nIter abstol [] h best_omega fewest_iters =
     Inr (h, best_omega, fewest_iters)"
| "omega_loop img msk nIter abstol (omega # rest) h best_omega fewest_iters =
     (case inpaint_sor h img msk abstol nIter omega of Inl e \<Rightarrow> Inl e
      | Inr (h1, _, iters) \<Rightarrow>
          if iters < fewest_iters
          then omega_loop img msk nIter abstol rest h1 (Some omega) iters
          else omega_loop img msk nIter abstol rest h1 best_omega fewest_iters)"

definition find_optimal_omega_sor ::
  "heap \<Rightarrow> ref \<Rightarrow> bool ndarray \<Rightarrow> real list option \<Rightarrow> int \<Rightarrow> real
     \<Rightarrow> error + heap \<times> real option \<times> int" where
  "find_optimal_omega_sor h img msk omega_values nIter abstol =
     omega_loop img msk nIter abstol
       (case omega_values of None \<Rightarrow> arange_default | Some ws \<Rightarrow> ws) h None nIter"

section \<open>Array contents of the iterations\<close>

text \<open>
  The contents of the array that a stepper returns, taken from the stepper itself
  (the input contents where the stepper raises). The \<open>k\<close>-th iterate of a solver is
  the \<open>k\<close>-fold application of this function to the contents of the input image.
\<close>

definition jacobi_iterate :: "bool ndarray \<Rightarrow> real \<Rightarrow> real ndarray \<Rightarrow> real ndarray" where
  "jacobi_iterate msk omega g = (case jacobi_values g msk omega of Inl e \<Rightarrow> g | Inr g' \<Rightarrow> g')"

definition sor_iterate :: "bool ndarray \<Rightarrow> real \<Rightarrow> real ndarray \<Rightarrow> real ndarray" where
  "sor_iterate msk omega g = (case sor_values g msk omega of Inl e \<Rightarrow> g | Inr g' \<Rightarrow> g')"

text \<open>
  The loop of both solvers on array contents: \<open>f\<close> is one sweep, and the loop stops at
  the first index whose sweep changes the masked cells by less than the tolerance.
\<close>

fun run_loop ::
  "(real ndarray \<Rightarrow> real ndarray) \<Rightarrow> bool ndarray \<Rightarrow> real \<Rightarrow> int \<Rightarrow> nat list \<Rightarrow> real ndarray
     \<Rightarrow> real ndarray \<times> int" where
  "run_loop f msk tol max_iter [] g = (g, max_iter)"
| "run_loop f msk tol max_iter (it # its) g =
     (if diff_norm (f g) g msk < tol then (f g, int it + 1)
      else run_loop f msk tol max_iter its (f g))"

text \<open>
  The change that the stopping test of a solver sees at loop index \<open>k\<close>: the norm of
  the difference between iterate \<open>k + 1\<close> and iterate \<open>k\<close> on the masked cells.
\<close>

definition change ::
  "(real ndarray \<Rightarrow> real ndarray) \<Rightarrow> bool ndarray \<Rightarrow> real ndarray \<Rightarrow> nat \<Rightarrow> real" where
  "change f msk g k = diff_norm ((f ^^ Suc k) g) ((f ^^ k) g) msk"

text \<open>
  The selection of \<^verbatim>\<open>find_optimal_omega_sor\<close> on the iteration counts alone: \<open>c\<close>
  gives the count of each candidate.
\<close>

fun pick_best :: "(real \<Rightarrow> int) \<Rightarrow> real list \<Rightarrow> real option \<Rightarrow> int \<Rightarrow> real option \<times> int" where
  "pick_best c [] best_omega fewest_iters = (best_omega, fewest_iters)"
| "pick_best c (omega # rest) best_omega fewest_iters =
     (if c omega < fewest_iters then pick_best c rest (Some omega) (c omega)
      else pick_best c rest best_omega fewest_iters)"

text \<open>
  What a caller sees of a result: the returned value without the store, and the iteration
  count of a solver. The count that \<^verbatim>\<open>inpaint_sor\<close> reports for a candidate is
  \<open>sor_iters\<close> (the cap itself where the solver raises).
\<close>

definition outcome :: "error + heap \<times> 'a \<Rightarrow> error + 'a" where
  "outcome res = (case res of Inl e \<Rightarrow> Inl e | Inr (h, v) \<Rightarrow> Inr v)"

definition iterations :: "error + heap \<times> ref \<times> int \<Rightarrow> error + int" where
  "iterations res = (case res of Inl e \<Rightarrow> Inl e | Inr (h, r, n) \<Rightarrow> Inr n)"

definition sor_iters :: "heap \<Rightarrow> ref \<Rightarrow> bool ndarray \<Rightarrow> real \<Rightarrow> int \<Rightarrow> real \<Rightarrow> int" where
  "sor_iters h img msk abstol nIter omega =
     (case inpaint_sor h img msk abstol nIter omega of Inl e \<Rightarrow> nIter | Inr (h', r, n) \<Rightarrow> n)"

section \<open>Concrete inputs\<close>

text \<open>
  Arrays filled with one value (\<^verbatim>\<open>np.zeros\<close>, \<^verbatim>\<open>np.full\<close>), and a store that
  holds one array under reference 0.
\<close>

definition zeros :: "nat \<Rightarrow> nat \<Rightarrow> real ndarray" where
  "zeros r c = \<lparr>nrows = r, ncols = c, cell = (\<lambda>p. 0)\<rparr>"

definition full :: "nat \<Rightarrow> nat \<Rightarrow> 'a \<Rightarrow> 'a ndarray" where
  "full r c v = \<lparr>nrows = r, ncols = c, cell = (\<lambda>p. v)\<rparr>"

definition single_object :: "real ndarray \<Rightarrow> heap" where
  "single_object g = \<lparr>arr = (\<lambda>r. g), fresh = 1\<rparr>"

text \<open>
  The scenario of the hot corner: a 10 by 10 grid of zeros with the value 100 at
  \<open>(0, 0)\<close>, and the mask that is true everywhere except at that corner.
\<close>

definition hot_corner :: "real ndarray" where
  "hot_corner = \<lparr>nrows = 10, ncols = 10, cell = (\<lambda>p. if p = (0, 0) then 100 else 0)\<rparr>"

definition corner_mask :: "bool ndarray" where
  "corner_mask = \<lparr>nrows = 10, ncols = 10, cell = (\<lambda>p. p \<noteq> (0, 0))\<rparr>"

text \<open>A 3 by 3 grid with the value 4 on its border and 0 at its only interior cell.\<close>

definition ring :: "real ndarray" where
  "ring = \<lparr>nrows = 3, ncols = 3, cell = (\<lambda>p. if p = (1, 1) then 0 else 4)\<rparr>"

text \<open>The 3 by 3 mask that is true at the interior cell only.\<close>

definition center_mask :: "bool ndarray" where
  "center_mask = \<lparr>nrows = 3, ncols = 3, cell = (\<lambda>p. p = (1, 1))\<rparr>"

section \<open>Boolean indexing and the Jacobi update, cell by cell\<close>

lemma fold_assign_cell:
  "distinct ps \<Longrightarrow>
   fold (\<lambda>(p, v) c. c(p := v)) (zip ps (map f ps)) c q = (if q \<in> set ps then f q else c q)"
  by (induction ps arbitrary: c) auto

lemma distinct_indices: "distinct (indices a)"
  by (simp add: indices_def distinct_product)

lemma set_indices: "p \<in> set (indices a) \<longleftrightarrow> fst p < nrows a \<and> snd p < ncols a"
  by (cases p) (simp add: indices_def)

lemma indices_cong: "shape a = shape b \<Longrightarrow> indices a = indices b"
  by (simp add: indices_def shape_def)

lemma shape_avg_neighbors: "shape (avg_neighbors u) = shape u"
  by (simp add: avg_neighbors_def shape_def)

lemma map2_same: "map2 f (map g xs) (map h xs) = map (\<lambda>x. f (g x) (h x)) xs"
  by (induction xs) auto

lemma jacobi_values_ok:
  assumes "shape msk = shape u"
  shows "jacobi_values u msk omega = Inr (jacobi_iterate msk omega u)"
  using assms
  by (simp add: jacobi_iterate_def jacobi_values_def bool_index_def bool_assign_def shape_avg_neighbors)

lemma jacobi_values_err:
  "shape msk \<noteq> shape u \<Longrightarrow> jacobi_values u msk omega = Inl IndexError"
  by (simp add: jacobi_values_def bool_index_def)

lemma shape_jacobi_iterate: "shape (jacobi_iterate msk omega u) = shape u"
  by (simp add: jacobi_iterate_def jacobi_values_def bool_index_def bool_assign_def shape_def
      split: sum.splits)

lemma cell_jacobi_iterate:
  assumes "shape msk = shape u"
  shows "cell (jacobi_iterate msk omega u) p =
    (if p \<in> set (indices u) \<and> cell msk p
     then (1 - omega) * cell u p + omega * cell (avg_neighbors u) p else cell u p)"
proof -
  let ?ps = "filter (cell msk) (indices u)"
  have d: "distinct ?ps" by (simp add: distinct_indices)
  have i: "indices (avg_neighbors u) = indices u"
    by (rule indices_cong) (rule shape_avg_neighbors)
  have "cell (jacobi_iterate msk omega u) =
      fold (\<lambda>(p, v) c. c(p := v))
        (zip ?ps (map (\<lambda>p. (1 - omega) * cell u p + omega * cell (avg_neighbors u) p) ?ps)) (cell u)"
    using assms
    by (simp add: jacobi_iterate_def jacobi_values_def bool_index_def bool_assign_def
        shape_avg_neighbors masked_values_def i map2_same)
  then show ?thesis
    by (simp add: fold_assign_cell [OF d])
qed

section \<open>The SOR sweep, cell by cell\<close>

lemma shape_sor_cell: "shape (sor_cell msk omega p u) = shape u"
  by (cases p) (simp add: sor_cell_def shape_def Let_def)

lemma sor_cell_other: "q \<noteq> p \<Longrightarrow> cell (sor_cell msk omega p u) q = cell u q"
  by (cases p) (simp add: sor_cell_def Let_def)

lemma sor_cell_at:
  "cell (sor_cell msk omega (i, j) u) (i, j) =
     (if cell msk (i, j)
      then (1 - omega) * cell u (i, j)
           + omega * ((cell u (i + 1, j) + cell u (i - 1, j) + cell u (i, j + 1) + cell u (i, j - 1)) / 4)
      else cell u (i, j))"
  by (simp add: sor_cell_def Let_def)

lemma sor_cols_fold:
  "i < nrows msk \<Longrightarrow> \<forall>j \<in> set js. j < ncols msk \<Longrightarrow>
   sor_cols msk omega i js u = Inr (fold (sor_cell msk omega) (map (Pair i) js) u)"
  by (induction js arbitrary: u) auto

lemma sor_rows_fold:
  "\<forall>i \<in> set is. i < nrows msk \<Longrightarrow> \<forall>j \<in> set js. j < ncols msk \<Longrightarrow>
   sor_rows msk omega is js u = Inr (fold (sor_cell msk omega) (List.product is js) u)"
  by (induction "is" arbitrary: u) (auto simp: sor_cols_fold)

lemma sor_cols_char:
  assumes "1 \<le> i" "i < nrows msk" "c \<le> ncols msk"
  shows "1 \<le> j0 \<Longrightarrow>
    \<exists>u'. sor_cols msk omega i [j0..<c] u = Inr u' \<and> shape u' = shape u
      \<and> (\<forall>q. fst q \<noteq> i \<or> snd q < j0 \<or> c \<le> snd q \<longrightarrow> cell u' q = cell u q)
      \<and> (\<forall>j. j0 \<le> j \<and> j < c \<longrightarrow> cell u' (i, j) =
            (if cell msk (i, j)
             then (1 - omega) * cell u (i, j)
                  + omega * ((cell u (i + 1, j) + cell u (i - 1, j) + cell u (i, j + 1) + cell u' (i, j - 1)) / 4)
             else cell u (i, j)))"
proof (induction "c - j0" arbitrary: j0 u)
  case 0
  then show ?case by simp
next
  case (Suc n)
  then have lt: "j0 < c" by simp
  let ?u1 = "sor_cell msk omega (i, j0) u"
  from Suc have "n = c - Suc j0" "1 \<le> Suc j0" by simp_all
  from Suc.hyps(1) [OF this, of ?u1] obtain u' where
    run: "sor_cols msk omega i [Suc j0..<c] ?u1 = Inr u'" and
    sh: "shape u' = shape ?u1" and
    same: "\<And>q. fst q \<noteq> i \<or> snd q < Suc j0 \<or> c \<le> snd q \<Longrightarrow> cell u' q = cell ?u1 q" and
    new: "\<And>j. Suc j0 \<le> j \<Longrightarrow> j < c \<Longrightarrow> cell u' (i, j) =
            (if cell msk (i, j)
             then (1 - omega) * cell ?u1 (i, j)
                  + omega * ((cell ?u1 (i + 1, j) + cell ?u1 (i - 1, j) + cell ?u1 (i, j + 1) + cell u' (i, j - 1)) / 4)
             else cell ?u1 (i, j))"
    by blast
  have r: "sor_cols msk omega i [j0..<c] u = Inr u'"
    using lt assms run by (simp add: upt_conv_Cons)
  have s: "shape u' = shape u" using sh by (simp add: shape_sor_cell)
  have a: "cell u' q = cell u q" if "fst q \<noteq> i \<or> snd q < j0 \<or> c \<le> snd q" for q
  proof -
    have "q \<noteq> (i, j0)" using that lt by auto
    moreover have "cell u' q = cell ?u1 q" using that by (intro same) auto
    ultimately show ?thesis by (simp add: sor_cell_other)
  qed
  have b: "cell u' (i, j) =
            (if cell msk (i, j)
             then (1 - omega) * cell u (i, j)
                  + omega * ((cell u (i + 1, j) + cell u (i - 1, j) + cell u (i, j + 1) + cell u' (i, j - 1)) / 4)
             else cell u (i, j))" if "j0 \<le> j" "j < c" for j
  proof (cases "j = j0")
    case True
    have "cell u' (i, j0) = cell ?u1 (i, j0)" by (intro same) simp
    moreover have "cell u' (i, j0 - 1) = cell u (i, j0 - 1)"
      using \<open>1 \<le> j0\<close> by (intro a) simp
    ultimately show ?thesis using True by (simp add: sor_cell_at)
  next
    case False
    then have le: "Suc j0 \<le> j" using that by simp
    from new [OF this that(2)] show ?thesis
      using False assms(1) le by (simp add: sor_cell_other)
  qed
  from r s a b show ?case by blast
qed

lemma sor_rows_char:
  assumes "r \<le> nrows msk" "c \<le> ncols msk"
  shows "1 \<le> i0 \<Longrightarrow>
    \<exists>u'. sor_rows msk omega [i0..<r] [1..<c] u = Inr u' \<and> shape u' = shape u
      \<and> (\<forall>q. fst q < i0 \<or> r \<le> fst q \<or> snd q < 1 \<or> c \<le> snd q \<longrightarrow> cell u' q = cell u q)
      \<and> (\<forall>i j. i0 \<le> i \<and> i < r \<and> 1 \<le> j \<and> j < c \<longrightarrow> cell u' (i, j) =
            (if cell msk (i, j)
             then (1 - omega) * cell u (i, j)
                  + omega * ((cell u (i + 1, j) + cell u' (i - 1, j) + cell u (i, j + 1) + cell u' (i, j - 1)) / 4)
             else cell u (i, j)))"
proof (induction "r - i0" arbitrary: i0 u)
  case 0
  then show ?case by simp
next
  case (Suc n)
  then have lt: "i0 < r" by simp
  then have "i0 < nrows msk" using assms by simp
  from sor_cols_char [OF \<open>1 \<le> i0\<close> this assms(2), of 1 omega u] obtain u1 where
    run1: "sor_cols msk omega i0 [1..<c] u = Inr u1" and
    sh1: "shape u1 = shape u" and
    same1: "\<And>q. fst q \<noteq> i0 \<or> snd q < 1 \<or> c \<le> snd q \<Longrightarrow> cell u1 q = cell u q" and
    new1: "\<And>j. 1 \<le> j \<Longrightarrow> j < c \<Longrightarrow> cell u1 (i0, j) =
            (if cell msk (i0, j)
             then (1 - omega) * cell u (i0, j)
                  + omega * ((cell u (i0 + 1, j) + cell u (i0 - 1, j) + cell u (i0, j + 1) + cell u1 (i0, j - 1)) / 4)
             else cell u (i0, j))"
    by blast
  from Suc have "n = r - Suc i0" "1 \<le> Suc i0" by simp_all
  from Suc.hyps(1) [OF this, of u1] obtain u' where
    run: "sor_rows msk omega [Suc i0..<r] [1..<c] u1 = Inr u'" and
    sh: "shape u' = shape u1" and
    same: "\<And>q. fst q < Suc i0 \<or> r \<le> fst q \<or> snd q < 1 \<or> c \<le> snd q \<Longrightarrow> cell u' q = cell u1 q" and
    new: "\<And>i j. Suc i0 \<le> i \<Longrightarrow> i < r \<Longrightarrow> 1 \<le> j \<Longrightarrow> j < c \<Longrightarrow> cell u' (i, j) =
            (if cell msk (i, j)
             then (1 - omega) * cell u1 (i, j)
                  + omega * ((cell u1 (i + 1, j) + cell u' (i - 1, j) + cell u1 (i, j + 1) + cell u' (i, j - 1)) / 4)
             else cell u1 (i, j))"
    by blast
  have r: "sor_rows msk omega [i0..<r] [1..<c] u = Inr u'"
    using lt run1 run by (simp add: upt_conv_Cons)
  have s: "shape u' = shape u" using sh sh1 by simp
  have a: "cell u' q = cell u q" if "fst q < i0 \<or> r \<le> fst q \<or> snd q < 1 \<or> c \<le> snd q" for q
  proof -
    have "cell u' q = cell u1 q" using that by (intro same) auto
    moreover have "cell u1 q = cell u q" using that lt by (intro same1) auto
    ultimately show ?thesis by simp
  qed
  have b: "cell u' (i, j) =
            (if cell msk (i, j)
             then (1 - omega) * cell u (i, j)
                  + omega * ((cell u (i + 1, j) + cell u' (i - 1, j) + cell u (i, j + 1) + cell u' (i, j - 1)) / 4)
             else cell u (i, j))" if "i0 \<le> i" "i < r" "1 \<le> j" "j < c" for i j
  proof (cases "i = i0")
    case True
    have "cell u' (i0, j) = cell u1 (i0, j)" "cell u' (i0, j - 1) = cell u1 (i0, j - 1)"
      by (intro same; simp)+
    moreover have "cell u' (i0 - 1, j) = cell u (i0 - 1, j)"
      using \<open>1 \<le> i0\<close> by (intro a) simp
    ultimately show ?thesis using True new1 [OF that(3,4)] by simp
  next
    case False
    then have le: "Suc i0 \<le> i" using that by simp
    from new [OF this that(2,3,4)] show ?thesis
      using False le by (simp add: same1)
  qed
  from r s a b show ?case by blast
qed

section \<open>One sweep and the loop on array contents\<close>

lemma sor_values_char:
  assumes "shape msk = shape u"
  shows "\<exists>u'. sor_values u msk omega = Inr u' \<and> shape u' = shape u
      \<and> (\<forall>i j. cell u' (i, j) =
            (if 1 \<le> i \<and> i + 1 < nrows u \<and> 1 \<le> j \<and> j + 1 < ncols u \<and> cell msk (i, j)
             then (1 - omega) * cell u (i, j)
                  + omega * ((cell u (i + 1, j) + cell u' (i - 1, j) + cell u (i, j + 1) + cell u' (i, j - 1)) / 4)
             else cell u (i, j)))"
proof -
  have le: "nrows u - 1 \<le> nrows msk" "ncols u - 1 \<le> ncols msk"
    using assms by (simp_all add: shape_def)
  from sor_rows_char [OF le, of 1 omega u] obtain u' where
    run: "sor_rows msk omega [1..<nrows u - 1] [1..<ncols u - 1] u = Inr u'" and
    sh: "shape u' = shape u" and
    same: "\<And>q. fst q < 1 \<or> nrows u - 1 \<le> fst q \<or> snd q < 1 \<or> ncols u - 1 \<le> snd q
             \<Longrightarrow> cell u' q = cell u q" and
    new: "\<And>i j. 1 \<le> i \<Longrightarrow> i < nrows u - 1 \<Longrightarrow> 1 \<le> j \<Longrightarrow> j < ncols u - 1 \<Longrightarrow> cell u' (i, j) =
            (if cell msk (i, j)
             then (1 - omega) * cell u (i, j)
                  + omega * ((cell u (i + 1, j) + cell u' (i - 1, j) + cell u (i, j + 1) + cell u' (i, j - 1)) / 4)
             else cell u (i, j))"
    by blast
  have "cell u' (i, j) =
            (if 1 \<le> i \<and> i + 1 < nrows u \<and> 1 \<le> j \<and> j + 1 < ncols u \<and> cell msk (i, j)
             then (1 - omega) * cell u (i, j)
                  + omega * ((cell u (i + 1, j) + cell u' (i - 1, j) + cell u (i, j + 1) + cell u' (i, j - 1)) / 4)
             else cell u (i, j))" for i j
  proof (cases "1 \<le> i \<and> i + 1 < nrows u \<and> 1 \<le> j \<and> j + 1 < ncols u")
    case True
    then have "1 \<le> i" "i < nrows u - 1" "1 \<le> j" "j < ncols u - 1" by auto
    from new [OF this] True show ?thesis by simp
  next
    case False
    then have "cell u' (i, j) = cell u (i, j)" by (intro same) auto
    with False show ?thesis by auto
  qed
  with run sh show ?thesis by (auto simp: sor_values_def)
qed

lemma sor_values_ok:
  "shape msk = shape u \<Longrightarrow> sor_values u msk omega = Inr (sor_iterate msk omega u)"
  using sor_values_char [of msk u omega] by (auto simp: sor_iterate_def)

lemma shape_sor_iterate:
  "shape msk = shape u \<Longrightarrow> shape (sor_iterate msk omega u) = shape u"
  using sor_values_char [of msk u omega] by (auto simp: sor_iterate_def)

lemma cell_sor_iterate:
  assumes "shape msk = shape u"
  shows "cell (sor_iterate msk omega u) (i, j) =
            (if 1 \<le> i \<and> i + 1 < nrows u \<and> 1 \<le> j \<and> j + 1 < ncols u \<and> cell msk (i, j)
             then (1 - omega) * cell u (i, j)
                  + omega * ((cell u (i + 1, j) + cell (sor_iterate msk omega u) (i - 1, j)
                              + cell u (i, j + 1) + cell (sor_iterate msk omega u) (i, j - 1)) / 4)
             else cell u (i, j))"
proof -
  from sor_values_char [OF assms, of omega] obtain u' where
    "sor_values u msk omega = Inr u'" and
    c: "\<And>i j. cell u' (i, j) =
            (if 1 \<le> i \<and> i + 1 < nrows u \<and> 1 \<le> j \<and> j + 1 < ncols u \<and> cell msk (i, j)
             then (1 - omega) * cell u (i, j)
                  + omega * ((cell u (i + 1, j) + cell u' (i - 1, j) + cell u (i, j + 1) + cell u' (i, j - 1)) / 4)
             else cell u (i, j))"
    by blast
  then have "sor_iterate msk omega u = u'" by (simp add: sor_iterate_def)
  with c [of i j] show ?thesis by simp
qed

lemma sor_iterate_unmasked:
  "shape msk = shape u \<Longrightarrow> \<not> cell msk p \<Longrightarrow> cell (sor_iterate msk omega u) p = cell u p"
  by (cases p) (simp add: cell_sor_iterate)

lemma jacobi_iterate_unmasked:
  "shape msk = shape u \<Longrightarrow> \<not> cell msk p \<Longrightarrow> cell (jacobi_iterate msk omega u) p = cell u p"
  by (simp add: cell_jacobi_iterate)

lemma masked_diff_ok:
  "shape m = shape a \<Longrightarrow> shape m = shape b \<Longrightarrow> masked_diff a b m = Inr (diff_norm a b m)"
  by (simp add: masked_diff_def bool_index_def diff_norm_def)

lemma run_loop_all:
  "(\<forall>k<n. \<not> diff_norm ((f ^^ Suc k) g) ((f ^^ k) g) msk < tol) \<Longrightarrow>
   run_loop f msk tol mi [a..<a + n] g = ((f ^^ n) g, mi)"
proof (induction n arbitrary: a g)
  case 0
  then show ?case by simp
next
  case (Suc n)
  have first: "\<not> diff_norm (f g) g msk < tol" using Suc.prems by force
  have rest: "\<forall>k<n. \<not> diff_norm ((f ^^ Suc k) (f g)) ((f ^^ k) (f g)) msk < tol"
  proof (intro allI impI)
    fix k assume "k < n"
    then have "\<not> diff_norm ((f ^^ Suc (Suc k)) g) ((f ^^ Suc k) g) msk < tol"
      using Suc.prems by (meson Suc_less_eq)
    then show "\<not> diff_norm ((f ^^ Suc k) (f g)) ((f ^^ k) (f g)) msk < tol"
      by (simp add: funpow_swap1)
  qed
  have "[a..<a + Suc n] = a # [Suc a..<Suc a + n]" by (simp add: upt_conv_Cons)
  then show ?case using first Suc.IH [OF rest, of "Suc a"] by (simp add: funpow_swap1)
qed

lemma run_loop_stop:
  "k < n \<Longrightarrow> diff_norm ((f ^^ Suc k) g) ((f ^^ k) g) msk < tol \<Longrightarrow>
   (\<forall>k'<k. \<not> diff_norm ((f ^^ Suc k') g) ((f ^^ k') g) msk < tol) \<Longrightarrow>
   run_loop f msk tol mi [a..<a + n] g = ((f ^^ Suc k) g, int (a + k) + 1)"
proof (induction k arbitrary: a g n)
  case 0
  then have "[a..<a + n] = a # [Suc a..<a + n]" by (simp add: upt_conv_Cons)
  then show ?case using 0 by simp
next
  case (Suc k)
  then obtain n' where n: "n = Suc n'" by (cases n) auto
  have first: "\<not> diff_norm (f g) g msk < tol" using Suc.prems(3) by force
  have lt: "k < n'" using Suc.prems(1) n by simp
  have hit: "diff_norm ((f ^^ Suc k) (f g)) ((f ^^ k) (f g)) msk < tol"
    using Suc.prems(2) by (simp add: funpow_swap1)
  have rest: "\<forall>k'<k. \<not> diff_norm ((f ^^ Suc k') (f g)) ((f ^^ k') (f g)) msk < tol"
  proof (intro allI impI)
    fix k' assume "k' < k"
    then have "\<not> diff_norm ((f ^^ Suc (Suc k')) g) ((f ^^ Suc k') g) msk < tol"
      using Suc.prems(3) by (meson Suc_less_eq)
    then show "\<not> diff_norm ((f ^^ Suc k') (f g)) ((f ^^ k') (f g)) msk < tol"
      by (simp add: funpow_swap1)
  qed
  have "[a..<a + n] = a # [Suc a..<Suc a + n']" using n by (simp add: upt_conv_Cons)
  then show ?case using first Suc.IH [OF lt hit rest, of "Suc a"]
    by (simp add: funpow_swap1)
qed

section \<open>The loops on the object store\<close>

lemma step_jacobi_2D_ok:
  "shape msk = shape (arr h u) \<Longrightarrow>
   step_jacobi_2D h u msk omega =
     Inr (h\<lparr>arr := (arr h)(fresh h := jacobi_iterate msk omega (arr h u)), fresh := Suc (fresh h)\<rparr>,
          fresh h)"
  by (simp add: step_jacobi_2D_def ndarray_copy_def alloc_def store_def jacobi_values_ok)

lemma step_sor_2D_ok:
  "shape msk = shape (arr h u) \<Longrightarrow>
   step_sor_2D h u msk omega = Inr (h\<lparr>arr := (arr h)(u := sor_iterate msk omega (arr h u))\<rparr>, u)"
  by (simp add: step_sor_2D_def store_def sor_values_ok)

lemma jacobi_loop_run:
  "shape msk = shape (arr h u) \<Longrightarrow> u < fresh h \<Longrightarrow>
   \<exists>h' r. jacobi_loop msk tol mi omega its h u
            = Inr (h', r, snd (run_loop (jacobi_iterate msk omega) msk tol mi its (arr h u)))
     \<and> arr h' r = fst (run_loop (jacobi_iterate msk omega) msk tol mi its (arr h u))
     \<and> u \<le> r \<and> r < fresh h' \<and> fresh h \<le> fresh h' \<and> (\<forall>x<fresh h. arr h' x = arr h x)"
proof (induction its arbitrary: h u)
  case Nil
  then show ?case by simp
next
  case (Cons it its)
  let ?g = "arr h u"
  let ?J = "jacobi_iterate msk omega ?g"
  let ?h1 = "h\<lparr>arr := (arr h)(fresh h := ?J), fresh := Suc (fresh h)\<rparr>"
  have step: "step_jacobi_2D h u msk omega = Inr (?h1, fresh h)"
    using Cons.prems(1) by (rule step_jacobi_2D_ok)
  have old: "arr ?h1 u = ?g" using Cons.prems(2) by simp
  have new: "arr ?h1 (fresh h) = ?J" by simp
  have shJ: "shape msk = shape ?J" using Cons.prems(1) by (simp add: shape_jacobi_iterate)
  have diff: "masked_diff (arr ?h1 (fresh h)) (arr ?h1 u) msk = Inr (diff_norm ?J ?g msk)"
    unfolding old new using shJ Cons.prems(1) by (rule masked_diff_ok)
  show ?case
  proof (cases "diff_norm ?J ?g msk < tol")
    case True
    have "jacobi_loop msk tol mi omega (it # its) h u = Inr (?h1, fresh h, int it + 1)"
      using step diff True by simp
    moreover have "run_loop (jacobi_iterate msk omega) msk tol mi (it # its) ?g = (?J, int it + 1)"
      using True by simp
    ultimately show ?thesis using Cons.prems(2) by auto
  next
    case False
    have a: "shape msk = shape (arr ?h1 (fresh h))" using shJ by simp
    have b: "fresh h < fresh ?h1" by simp
    from Cons.IH [OF a b] obtain h' r where
      run: "jacobi_loop msk tol mi omega its ?h1 (fresh h)
            = Inr (h', r, snd (run_loop (jacobi_iterate msk omega) msk tol mi its ?J))" and
      res: "arr h' r = fst (run_loop (jacobi_iterate msk omega) msk tol mi its ?J)" and
      le: "fresh h \<le> r" "r < fresh h'" "fresh ?h1 \<le> fresh h'" and
      frame: "\<And>x. x < fresh ?h1 \<Longrightarrow> arr h' x = arr ?h1 x"
      unfolding new by blast
    have "jacobi_loop msk tol mi omega (it # its) h u
            = Inr (h', r, snd (run_loop (jacobi_iterate msk omega) msk tol mi (it # its) ?g))"
      using step diff False run by simp
    moreover have "arr h' r = fst (run_loop (jacobi_iterate msk omega) msk tol mi (it # its) ?g)"
      using False res by simp
    moreover have "arr h' x = arr h x" if "x < fresh h" for x
      using frame [of x] that by simp
    ultimately show ?thesis using le Cons.prems(2) by auto
  qed
qed

lemma sor_loop_run:
  "shape msk = shape (arr h u) \<Longrightarrow> u < fresh h \<Longrightarrow>
   \<exists>h'. sor_loop msk tol mi omega its h u
            = Inr (h', u, snd (run_loop (sor_iterate msk omega) msk tol mi its (arr h u)))
     \<and> arr h' u = fst (run_loop (sor_iterate msk omega) msk tol mi its (arr h u))
     \<and> fresh h \<le> fresh h' \<and> (\<forall>x<fresh h. x \<noteq> u \<longrightarrow> arr h' x = arr h x)"
proof (induction its arbitrary: h)
  case Nil
  then show ?case by simp
next
  case (Cons it its)
  let ?g = "arr h u"
  let ?S = "sor_iterate msk omega ?g"
  let ?h1 = "h\<lparr>arr := (arr h)(fresh h := ?g), fresh := Suc (fresh h)\<rparr>"
  let ?h2 = "?h1\<lparr>arr := (arr ?h1)(u := ?S)\<rparr>"
  have ne: "u \<noteq> fresh h" using Cons.prems(2) by simp
  have cp: "ndarray_copy h u = (?h1, fresh h)" by (simp add: ndarray_copy_def alloc_def)
  have "shape msk = shape (arr ?h1 u)" using Cons.prems(1) ne by simp
  then have "step_sor_2D ?h1 u msk omega
      = Inr (?h1\<lparr>arr := (arr ?h1)(u := sor_iterate msk omega (arr ?h1 u))\<rparr>, u)"
    by (rule step_sor_2D_ok)
  then have step: "step_sor_2D ?h1 u msk omega = Inr (?h2, u)" using ne by simp
  have new: "arr ?h2 u = ?S" by simp
  have old: "arr ?h2 (fresh h) = ?g" using ne by simp
  have shS: "shape msk = shape ?S" using Cons.prems(1) by (simp add: shape_sor_iterate)
  have diff: "masked_diff (arr ?h2 u) (arr ?h2 (fresh h)) msk = Inr (diff_norm ?S ?g msk)"
    unfolding old new using shS Cons.prems(1) by (rule masked_diff_ok)
  show ?case
  proof (cases "diff_norm ?S ?g msk < tol")
    case True
    have "sor_loop msk tol mi omega (it # its) h u = Inr (?h2, u, int it + 1)"
      using cp step diff True by simp
    moreover have "run_loop (sor_iterate msk omega) msk tol mi (it # its) ?g = (?S, int it + 1)"
      using True by simp
    ultimately show ?thesis using ne by auto
  next
    case False
    have a: "shape msk = shape (arr ?h2 u)" using shS by simp
    have b: "u < fresh ?h2" using Cons.prems(2) by simp
    from Cons.IH [OF a b] obtain h' where
      run: "sor_loop msk tol mi omega its ?h2 u
            = Inr (h', u, snd (run_loop (sor_iterate msk omega) msk tol mi its ?S))" and
      res: "arr h' u = fst (run_loop (sor_iterate msk omega) msk tol mi its ?S)" and
      le: "fresh ?h2 \<le> fresh h'" and
      frame: "\<And>x. x < fresh ?h2 \<Longrightarrow> x \<noteq> u \<Longrightarrow> arr h' x = arr ?h2 x"
      unfolding new by blast
    have "sor_loop msk tol mi omega (it # its) h u
            = Inr (h', u, snd (run_loop (sor_iterate msk omega) msk tol mi (it # its) ?g))"
      using cp step diff False run by simp
    moreover have "arr h' u = fst (run_loop (sor_iterate msk omega) msk tol mi (it # its) ?g)"
      using False res by simp
    moreover have "arr h' x = arr h x" if "x < fresh h" "x \<noteq> u" for x
      using frame [of x] that by simp
    moreover have "fresh h \<le> fresh h'" using le by simp
    ultimately show ?thesis by auto
  qed
qed

lemma inpaint_jacobi_run:
  assumes "shape msk = shape (arr h img)"
  shows "\<exists>h' r. inpaint_jacobi h img msk tol mi omega
            = Inr (h', r, snd (run_loop (jacobi_iterate msk omega) msk tol mi [0..<nat mi] (arr h img)))
     \<and> arr h' r = fst (run_loop (jacobi_iterate msk omega) msk tol mi [0..<nat mi] (arr h img))
     \<and> fresh h \<le> r \<and> r < fresh h' \<and> (\<forall>x<fresh h. arr h' x = arr h x)"
proof -
  let ?h0 = "h\<lparr>arr := (arr h)(fresh h := arr h img), fresh := Suc (fresh h)\<rparr>"
  have a: "shape msk = shape (arr ?h0 (fresh h))" using assms by simp
  have b: "fresh h < fresh ?h0" by simp
  from jacobi_loop_run [OF a b, of tol mi omega "[0..<nat mi]"] obtain h' r where
    r: "jacobi_loop msk tol mi omega [0..<nat mi] ?h0 (fresh h)
       = Inr (h', r, snd (run_loop (jacobi_iterate msk omega) msk tol mi [0..<nat mi] (arr h img)))"
    "arr h' r = fst (run_loop (jacobi_iterate msk omega) msk tol mi [0..<nat mi] (arr h img))"
    "fresh h \<le> r" "r < fresh h'" and
    f: "\<And>x. x < fresh ?h0 \<Longrightarrow> arr h' x = arr ?h0 x"
    by auto
  have "arr h' x = arr h x" if "x < fresh h" for x
    using f [of x] that by simp
  then show ?thesis using r
    by (auto simp: inpaint_jacobi_def ndarray_copy_def alloc_def)
qed

lemma inpaint_sor_run:
  assumes "shape msk = shape (arr h img)"
  shows "\<exists>h'. inpaint_sor h img msk tol mi omega
            = Inr (h', fresh h, snd (run_loop (sor_iterate msk omega) msk tol mi [0..<nat mi] (arr h img)))
     \<and> arr h' (fresh h) = fst (run_loop (sor_iterate msk omega) msk tol mi [0..<nat mi] (arr h img))
     \<and> fresh h < fresh h' \<and> (\<forall>x<fresh h. arr h' x = arr h x)"
proof -
  let ?h0 = "h\<lparr>arr := (arr h)(fresh h := arr h img), fresh := Suc (fresh h)\<rparr>"
  have a: "shape msk = shape (arr ?h0 (fresh h))" using assms by simp
  have b: "fresh h < fresh ?h0" by simp
  from sor_loop_run [OF a b, of tol mi omega "[0..<nat mi]"] obtain h' where
    r: "sor_loop msk tol mi omega [0..<nat mi] ?h0 (fresh h)
       = Inr (h', fresh h, snd (run_loop (sor_iterate msk omega) msk tol mi [0..<nat mi] (arr h img)))"
    "arr h' (fresh h) = fst (run_loop (sor_iterate msk omega) msk tol mi [0..<nat mi] (arr h img))"
    "fresh ?h0 \<le> fresh h'" and
    f: "\<And>x. x < fresh ?h0 \<Longrightarrow> x \<noteq> fresh h \<Longrightarrow> arr h' x = arr ?h0 x"
    by auto
  have "arr h' x = arr h x" if "x < fresh h" for x
    using f [of x] that by simp
  moreover have "fresh h < fresh h'" using r(3) by simp
  ultimately show ?thesis using r(1,2)
    by (auto simp: inpaint_sor_def ndarray_copy_def alloc_def)
qed

section \<open>The selection of the search, norms and invariants of the loop\<close>

lemma pick_best_none:
  "\<forall>x \<in> set ws. \<not> c x < f \<Longrightarrow> pick_best c ws b f = (b, f)"
  by (induction ws) auto

lemma pick_best_first_min:
  "k < length ws \<Longrightarrow> c (ws ! k) < f \<Longrightarrow> \<forall>j<k. c (ws ! k) < c (ws ! j) \<Longrightarrow>
   \<forall>j<length ws. c (ws ! k) \<le> c (ws ! j) \<Longrightarrow>
   pick_best c ws b f = (Some (ws ! k), c (ws ! k))"
proof (induction ws arbitrary: k b f)
  case Nil
  then show ?case by simp
next
  case (Cons w ws)
  show ?case
  proof (cases k)
    case 0
    have "\<forall>x \<in> set ws. \<not> c x < c w"
    proof
      fix x assume "x \<in> set ws"
      then obtain j where "j < length ws" "ws ! j = x" by (auto simp: in_set_conv_nth)
      with Cons.prems(4) [rule_format, of "Suc j"] 0 show "\<not> c x < c w" by auto
    qed
    then show ?thesis using 0 Cons.prems(2) by (simp add: pick_best_none)
  next
    case (Suc k')
    have lt: "k' < length ws" using Cons.prems(1) Suc by simp
    have below: "c (ws ! k') < c w" using Cons.prems(3) [rule_format, of 0] Suc by simp
    have before: "\<forall>j<k'. c (ws ! k') < c (ws ! j)"
      using Cons.prems(3) Suc by (metis Suc_less_eq nth_Cons_Suc)
    have least: "\<forall>j<length ws. c (ws ! k') \<le> c (ws ! j)"
      using Cons.prems(4) Suc by (metis Suc_less_eq length_Cons nth_Cons_Suc)
    have cap: "c (ws ! k') < f" using Cons.prems(2) Suc by simp
    show ?thesis
      using Suc Cons.IH [OF lt below before least] Cons.IH [OF lt cap before least] by simp
  qed
qed

lemma sor_iters_run:
  "shape msk = shape (arr h img) \<Longrightarrow>
   sor_iters h img msk tol mi omega
     = snd (run_loop (sor_iterate msk omega) msk tol mi [0..<nat mi] (arr h img))"
  using inpaint_sor_run [of msk h img tol mi omega] by (auto simp: sor_iters_def)

lemma omega_loop_run:
  "shape msk = shape (arr h img) \<Longrightarrow> img < fresh h \<Longrightarrow>
   \<exists>h'. omega_loop img msk nIter tol ws h b f
           = Inr (h', pick_best (sor_iters h img msk tol nIter) ws b f)
      \<and> fresh h \<le> fresh h' \<and> (\<forall>x<fresh h. arr h' x = arr h x)"
proof (induction ws arbitrary: h b f)
  case Nil
  then show ?case by simp
next
  case (Cons w ws)
  from inpaint_sor_run [OF Cons.prems(1), of tol nIter w] obtain h1 where
    run: "inpaint_sor h img msk tol nIter w = Inr (h1, fresh h, sor_iters h img msk tol nIter w)" and
    le: "fresh h < fresh h1" and
    frame: "\<And>x. x < fresh h \<Longrightarrow> arr h1 x = arr h x"
    using sor_iters_run [OF Cons.prems(1)] by auto
  have same: "arr h1 img = arr h img" using frame Cons.prems(2) by simp
  have a: "shape msk = shape (arr h1 img)" using Cons.prems(1) same by simp
  have b: "img < fresh h1" using le Cons.prems(2) by simp
  have c: "sor_iters h1 img msk tol nIter = sor_iters h img msk tol nIter"
    by (rule ext) (simp add: sor_iters_run a Cons.prems(1) same)
  from Cons.IH [OF a b] c obtain h' where
    rest: "\<And>b f. \<exists>h'. omega_loop img msk nIter tol ws h1 b f
           = Inr (h', pick_best (sor_iters h img msk tol nIter) ws b f)
      \<and> fresh h1 \<le> fresh h' \<and> (\<forall>x<fresh h1. arr h' x = arr h1 x)"
    by simp
  show ?case
  proof (cases "sor_iters h img msk tol nIter w < f")
    case True
    from rest [of "Some w" "sor_iters h img msk tol nIter w"] obtain h' where
      "omega_loop img msk nIter tol ws h1 (Some w) (sor_iters h img msk tol nIter w)
           = Inr (h', pick_best (sor_iters h img msk tol nIter) ws (Some w) (sor_iters h img msk tol nIter w))"
      "fresh h1 \<le> fresh h'" "\<And>x. x < fresh h1 \<Longrightarrow> arr h' x = arr h1 x"
      by blast
    then show ?thesis using run True le frame
      by (intro exI [of _ h']) (auto simp: less_imp_le_nat)
  next
    case False
    from rest [of b f] obtain h' where
      "omega_loop img msk nIter tol ws h1 b f
           = Inr (h', pick_best (sor_iters h img msk tol nIter) ws b f)"
      "fresh h1 \<le> fresh h'" "\<And>x. x < fresh h1 \<Longrightarrow> arr h' x = arr h1 x"
      by blast
    then show ?thesis using run False le frame
      by (intro exI [of _ h']) (auto simp: less_imp_le_nat)
  qed
qed

lemma run_loop_inv:
  assumes "\<And>g. P g \<Longrightarrow> P (f g)"
  shows "P g \<Longrightarrow> P (fst (run_loop f msk tol mi its g))"
  by (induction its arbitrary: g) (auto simp: assms)

lemma run_loop_count:
  "\<forall>it \<in> set its. int it + 1 \<le> mi \<Longrightarrow> snd (run_loop f msk tol mi its g) \<le> mi"
  by (induction its arbitrary: g) auto

lemma linalg_norm_nonneg: "0 \<le> linalg_norm v"
proof -
  have "0 \<le> sum_list (map (\<lambda>x. x * x) v)"
    by (rule sum_list_nonneg) auto
  then show ?thesis by (simp add: linalg_norm_def)
qed

lemma diff_norm_nonneg: "0 \<le> diff_norm a b m"
  by (simp add: diff_norm_def linalg_norm_nonneg)

lemma masked_values_unmasked:
  "\<forall>i<nrows a. \<forall>j<ncols a. \<not> cell m (i, j) \<Longrightarrow> masked_values a m = []"
  by (auto simp: masked_values_def filter_empty_conv set_indices)

lemma diff_norm_unmasked:
  "\<forall>i<nrows a. \<forall>j<ncols a. \<not> cell m (i, j) \<Longrightarrow> diff_norm a b m = 0"
  by (simp add: diff_norm_def masked_values_unmasked linalg_norm_def)

section \<open>Facts about the concrete inputs\<close>

lemma shape_single_object [simp]: "arr (single_object g) r = g" "fresh (single_object g) = 1"
  by (simp_all add: single_object_def)

lemma shape_full_zeros [simp]: "shape (full r c v) = (r, c)" "shape (zeros r c) = (r, c)"
  by (simp_all add: shape_def full_def zeros_def)

lemma diff_norm_full_False [simp]: "diff_norm a b (full r c False) = 0"
  by (rule diff_norm_unmasked) (simp add: full_def)

lemma change_full_False [simp]: "change f (full r c False) g k = 0"
  by (simp add: change_def)

lemma shape_funpow:
  fixes f :: "real ndarray \<Rightarrow> real ndarray"
  assumes "\<And>g. shape msk = shape g \<Longrightarrow> shape (f g) = shape g"
  shows "shape msk = shape g \<Longrightarrow> shape ((f ^^ k) g) = shape g"
proof (induction k)
  case 0
  then show ?case by simp
next
  case (Suc k)
  then have "shape msk = shape ((f ^^ k) g)" by simp
  from assms [OF this] Suc show ?case by simp
qed

section \<open>The solver loops\<close>

text \<open>
  Claim C1. For an image and a mask of the same shape, \<^verbatim>\<open>inpaint_jacobi\<close> applies the
  stepper at most \<open>max_iter\<close> times. If \<open>k\<close> is the first loop index below
  \<open>max_iter\<close> at which the norm of the change on the masked cells is strictly below
  the tolerance, it returns the iterate \<open>k + 1\<close> with the count \<open>k + 1\<close>; if there is
  no such index, it returns the iterate \<open>max_iter\<close> with the count \<open>max_iter\<close>.
\<close>

theorem inpaint_jacobi_stops_at_first_small_change:
  assumes "shape msk = shape (arr h img)"
  shows "(\<forall>k. k < nat max_iter
            \<and> change (jacobi_iterate msk omega) msk (arr h img) k < tol
            \<and> (\<forall>k'<k. \<not> change (jacobi_iterate msk omega) msk (arr h img) k' < tol)
          \<longrightarrow> (\<exists>h' r. inpaint_jacobi h img msk tol max_iter omega = Inr (h', r, int k + 1)
                 \<and> arr h' r = (jacobi_iterate msk omega ^^ Suc k) (arr h img)))
       \<and> ((\<forall>k<nat max_iter. \<not> change (jacobi_iterate msk omega) msk (arr h img) k < tol)
          \<longrightarrow> (\<exists>h' r. inpaint_jacobi h img msk tol max_iter omega = Inr (h', r, max_iter)
                 \<and> arr h' r = (jacobi_iterate msk omega ^^ nat max_iter) (arr h img)))"
proof (intro conjI allI impI)
  fix k
  assume k: "k < nat max_iter
            \<and> change (jacobi_iterate msk omega) msk (arr h img) k < tol
            \<and> (\<forall>k'<k. \<not> change (jacobi_iterate msk omega) msk (arr h img) k' < tol)"
  then have "run_loop (jacobi_iterate msk omega) msk tol max_iter [0..<0 + nat max_iter] (arr h img)
      = ((jacobi_iterate msk omega ^^ Suc k) (arr h img), int (0 + k) + 1)"
    unfolding change_def by (intro run_loop_stop) auto
  with inpaint_jacobi_run [OF assms, of tol max_iter omega]
  show "\<exists>h' r. inpaint_jacobi h img msk tol max_iter omega = Inr (h', r, int k + 1)
                 \<and> arr h' r = (jacobi_iterate msk omega ^^ Suc k) (arr h img)"
    by auto
next
  assume "\<forall>k<nat max_iter. \<not> change (jacobi_iterate msk omega) msk (arr h img) k < tol"
  then have "run_loop (jacobi_iterate msk omega) msk tol max_iter [0..<0 + nat max_iter] (arr h img)
      = ((jacobi_iterate msk omega ^^ nat max_iter) (arr h img), max_iter)"
    unfolding change_def by (intro run_loop_all) auto
  with inpaint_jacobi_run [OF assms, of tol max_iter omega]
  show "\<exists>h' r. inpaint_jacobi h img msk tol max_iter omega = Inr (h', r, max_iter)
                 \<and> arr h' r = (jacobi_iterate msk omega ^^ nat max_iter) (arr h img)"
    by auto
qed

theorem inpaint_jacobi_stops_at_first_small_change_witness:
  "(\<exists>h' r. inpaint_jacobi (single_object (zeros 2 2)) 0 (full 2 2 False) 1 5 1 = Inr (h', r, 1))
   \<and> (\<exists>h' r. inpaint_jacobi (single_object (zeros 2 2)) 0 (full 2 2 False) 0 3 1 = Inr (h', r, 3))"
proof -
  have sh: "shape (full 2 2 False) = shape (arr (single_object (zeros 2 2)) 0)" by simp
  note early = inpaint_jacobi_stops_at_first_small_change
    [OF sh, where max_iter = 5 and tol = 1 and omega = 1, THEN conjunct1, THEN spec, of 0]
  note cap = inpaint_jacobi_stops_at_first_small_change
    [OF sh, where max_iter = 3 and tol = 0 and omega = 1, THEN conjunct2]
  have "\<exists>h' r. inpaint_jacobi (single_object (zeros 2 2)) 0 (full 2 2 False) 1 5 1 = Inr (h', r, 1)"
    using early by simp blast
  moreover
  have "\<exists>h' r. inpaint_jacobi (single_object (zeros 2 2)) 0 (full 2 2 False) 0 3 1 = Inr (h', r, 3)"
    using cap by simp blast
  ultimately show ?thesis by simp
qed

lemma run_loop_capped:
  "\<forall>k. \<not> change f msk g k < tol \<Longrightarrow>
   run_loop f msk tol mi [0..<nat mi] g = ((f ^^ nat mi) g, mi)"
  using run_loop_all [of "nat mi" f g msk tol mi 0] by (simp add: change_def)

lemma run_loop_first:
  "0 < mi \<Longrightarrow> change f msk g 0 < tol \<Longrightarrow> run_loop f msk tol mi [0..<nat mi] g = (f g, 1)"
  using run_loop_stop [of 0 "nat mi" f g msk tol mi 0] by (simp add: change_def)

lemma diff_norm_no_cells:
  "shape a = shape m \<Longrightarrow> \<forall>i<nrows m. \<forall>j<ncols m. \<not> cell m (i, j) \<Longrightarrow> diff_norm a b m = 0"
  by (rule diff_norm_unmasked) (simp add: shape_def)

text \<open>
  Claim C9. For an image and a mask of the same shape, \<open>max_iter \<ge> 1\<close> and a tolerance
  \<open>\<le> 0\<close>, the stopping test fails at every loop index of both solvers (the norm is never
  negative), and both return normally, with the iterate \<open>max_iter\<close> and the count
  \<open>max_iter\<close>.
\<close>

theorem nonpositive_tolerance_runs_to_cap:
  assumes "shape msk = shape (arr h img)" and "tol \<le> 0" and "1 \<le> max_iter"
  shows "(\<forall>k. \<not> change (jacobi_iterate msk omega) msk (arr h img) k < tol)
       \<and> (\<exists>h' r. inpaint_jacobi h img msk tol max_iter omega = Inr (h', r, max_iter)
             \<and> arr h' r = (jacobi_iterate msk omega ^^ nat max_iter) (arr h img))
       \<and> (\<forall>k. \<not> change (sor_iterate msk omega) msk (arr h img) k < tol)
       \<and> (\<exists>h' r. inpaint_sor h img msk tol max_iter omega = Inr (h', r, max_iter)
             \<and> arr h' r = (sor_iterate msk omega ^^ nat max_iter) (arr h img))"
proof -
  have never: "\<not> change f msk g k < tol" for f g k
    using diff_norm_nonneg [of "(f ^^ Suc k) g" "(f ^^ k) g" msk] assms(2)
    by (simp add: change_def)
  have j: "\<exists>h' r. inpaint_jacobi h img msk tol max_iter omega = Inr (h', r, max_iter)
             \<and> arr h' r = (jacobi_iterate msk omega ^^ nat max_iter) (arr h img)"
    using inpaint_jacobi_run [OF assms(1), of tol max_iter omega]
      run_loop_capped [of "jacobi_iterate msk omega" msk "arr h img" tol max_iter] never
    by auto
  have s: "\<exists>h' r. inpaint_sor h img msk tol max_iter omega = Inr (h', r, max_iter)
             \<and> arr h' r = (sor_iterate msk omega ^^ nat max_iter) (arr h img)"
    using inpaint_sor_run [OF assms(1), of tol max_iter omega]
      run_loop_capped [of "sor_iterate msk omega" msk "arr h img" tol max_iter] never
    by auto
  from never j s show ?thesis by blast
qed

theorem nonpositive_tolerance_runs_to_cap_witness:
  "(\<exists>h' r. inpaint_jacobi (single_object ring) 0 center_mask 0 3 1 = Inr (h', r, 3))
   \<and> (\<exists>h' r. inpaint_sor (single_object ring) 0 center_mask 0 3 1 = Inr (h', r, 3))"
proof -
  have sh: "shape center_mask = shape (arr (single_object ring) 0)"
    by (simp add: shape_def center_mask_def ring_def)
  have tol: "(0::real) \<le> 0" and cap: "(1::int) \<le> 3" by simp_all
  from nonpositive_tolerance_runs_to_cap [OF sh tol cap, of 1] show ?thesis by blast
qed

text \<open>
  Claim C10. For an image and a mask of the same shape whose cells are all false,
  \<open>max_iter \<ge> 1\<close> and a tolerance \<open>> 0\<close>, both solvers return with the count 1: the
  norm over no cells is 0, so the first iteration stops the loop.
\<close>

theorem unmasked_converges_in_one_iteration:
  assumes "shape msk = shape (arr h img)"
    and "\<forall>i<nrows msk. \<forall>j<ncols msk. \<not> cell msk (i, j)"
    and "1 \<le> max_iter" and "0 < tol"
  shows "(\<exists>h' r. inpaint_jacobi h img msk tol max_iter omega = Inr (h', r, 1))
       \<and> (\<exists>h' r. inpaint_sor h img msk tol max_iter omega = Inr (h', r, 1))"
proof -
  have pos: "0 < max_iter" using assms(3) by simp
  have "shape (jacobi_iterate msk omega (arr h img)) = shape msk"
    using assms(1) by (simp add: shape_jacobi_iterate)
  then have "change (jacobi_iterate msk omega) msk (arr h img) 0 < tol"
    using assms(2,4) by (simp add: change_def diff_norm_no_cells)
  from run_loop_first [OF pos this] inpaint_jacobi_run [OF assms(1), of tol max_iter omega]
  have j: "\<exists>h' r. inpaint_jacobi h img msk tol max_iter omega = Inr (h', r, 1)" by auto
  have "shape (sor_iterate msk omega (arr h img)) = shape msk"
    using assms(1) by (simp add: shape_sor_iterate)
  then have "change (sor_iterate msk omega) msk (arr h img) 0 < tol"
    using assms(2,4) by (simp add: change_def diff_norm_no_cells)
  from run_loop_first [OF pos this] inpaint_sor_run [OF assms(1), of tol max_iter omega]
  have s: "\<exists>h' r. inpaint_sor h img msk tol max_iter omega = Inr (h', r, 1)" by auto
  from j s show ?thesis ..
qed

theorem unmasked_converges_in_one_iteration_witness:
  "(\<exists>h' r. inpaint_jacobi (single_object ring) 0 (full 3 3 False) (1 / 10) 1000 1 = Inr (h', r, 1))
   \<and> (\<exists>h' r. inpaint_sor (single_object ring) 0 (full 3 3 False) (1 / 10) 1000 1 = Inr (h', r, 1))"
proof -
  have sh: "shape (full 3 3 False) = shape (arr (single_object ring) 0)"
    by (simp add: shape_def ring_def full_def)
  have none: "\<forall>i<nrows (full 3 3 False). \<forall>j<ncols (full 3 3 False). \<not> cell (full 3 3 False) (i, j)"
    by (simp add: full_def)
  have cap: "(1::int) \<le> 1000" and tol: "(0::real) < 1 / 10" by simp_all
  from unmasked_converges_in_one_iteration [OF sh none cap tol, of 1] show ?thesis .
qed

section \<open>What the solvers leave unchanged\<close>

lemma run_loop_keeps:
  fixes f :: "real ndarray \<Rightarrow> real ndarray"
  assumes sh: "\<And>g. shape msk = shape g \<Longrightarrow> shape (f g) = shape g"
    and un: "\<And>g p. shape msk = shape g \<Longrightarrow> \<not> cell msk p \<Longrightarrow> cell (f g) p = cell g p"
    and g: "shape msk = shape g"
  shows "shape (fst (run_loop f msk tol mi its g)) = shape g
       \<and> (\<forall>p. \<not> cell msk p \<longrightarrow> cell (fst (run_loop f msk tol mi its g)) p = cell g p)"
proof -
  let ?P = "\<lambda>a. shape a = shape g \<and> (\<forall>p. \<not> cell msk p \<longrightarrow> cell a p = cell g p)"
  have step: "?P (f a)" if "?P a" for a
    using that sh [of a] un [of a] g by simp
  have start: "?P g" by simp
  have "?P (fst (run_loop f msk tol mi its g))"
    using step start by (rule run_loop_inv [where P = ?P])
  then show ?thesis .
qed

text \<open>
  Claim C3. For an image and a mask of the same shape, both solvers return a grid that is
  a new object, has the shape of the image, and agrees with the image at every cell where
  the mask is false; the image object of the caller has the same contents after the call
  as before.
\<close>

theorem solvers_keep_shape_and_unmasked_cells:
  assumes "shape msk = shape (arr h img)" and "img < fresh h"
  shows "(\<exists>h' r n. inpaint_jacobi h img msk tol max_iter omega = Inr (h', r, n)
            \<and> r \<noteq> img
            \<and> shape (arr h' r) = shape (arr h img)
            \<and> (\<forall>i<nrows (arr h img). \<forall>j<ncols (arr h img).
                  \<not> cell msk (i, j) \<longrightarrow> cell (arr h' r) (i, j) = cell (arr h img) (i, j))
            \<and> arr h' img = arr h img)
       \<and> (\<exists>h' r n. inpaint_sor h img msk tol max_iter omega = Inr (h', r, n)
            \<and> r \<noteq> img
            \<and> shape (arr h' r) = shape (arr h img)
            \<and> (\<forall>i<nrows (arr h img). \<forall>j<ncols (arr h img).
                  \<not> cell msk (i, j) \<longrightarrow> cell (arr h' r) (i, j) = cell (arr h img) (i, j))
            \<and> arr h' img = arr h img)"
proof (rule conjI)
  let ?g = "arr h img"
  let ?J = "fst (run_loop (jacobi_iterate msk omega) msk tol max_iter [0..<nat max_iter] ?g)"
  have keep: "shape ?J = shape ?g \<and> (\<forall>p. \<not> cell msk p \<longrightarrow> cell ?J p = cell ?g p)"
    using assms(1)
    by (intro run_loop_keeps) (simp_all add: shape_jacobi_iterate jacobi_iterate_unmasked)
  from inpaint_jacobi_run [OF assms(1), of tol max_iter omega] obtain h' r n where
    "inpaint_jacobi h img msk tol max_iter omega = Inr (h', r, n)" "arr h' r = ?J"
    "fresh h \<le> r" "\<And>x. x < fresh h \<Longrightarrow> arr h' x = arr h x"
    by blast
  with keep assms(2) show "\<exists>h' r n. inpaint_jacobi h img msk tol max_iter omega = Inr (h', r, n)
            \<and> r \<noteq> img
            \<and> shape (arr h' r) = shape (arr h img)
            \<and> (\<forall>i<nrows (arr h img). \<forall>j<ncols (arr h img).
                  \<not> cell msk (i, j) \<longrightarrow> cell (arr h' r) (i, j) = cell (arr h img) (i, j))
            \<and> arr h' img = arr h img"
    by (intro exI [of _ h'] exI [of _ r] exI [of _ n]) auto
next
  let ?g = "arr h img"
  let ?S = "fst (run_loop (sor_iterate msk omega) msk tol max_iter [0..<nat max_iter] ?g)"
  have keep: "shape ?S = shape ?g \<and> (\<forall>p. \<not> cell msk p \<longrightarrow> cell ?S p = cell ?g p)"
    using assms(1)
    by (intro run_loop_keeps) (simp_all add: shape_sor_iterate sor_iterate_unmasked)
  from inpaint_sor_run [OF assms(1), of tol max_iter omega] obtain h' n where
    "inpaint_sor h img msk tol max_iter omega = Inr (h', fresh h, n)" "arr h' (fresh h) = ?S"
    "\<And>x. x < fresh h \<Longrightarrow> arr h' x = arr h x"
    by blast
  with keep assms(2) show "\<exists>h' r n. inpaint_sor h img msk tol max_iter omega = Inr (h', r, n)
            \<and> r \<noteq> img
            \<and> shape (arr h' r) = shape (arr h img)
            \<and> (\<forall>i<nrows (arr h img). \<forall>j<ncols (arr h img).
                  \<not> cell msk (i, j) \<longrightarrow> cell (arr h' r) (i, j) = cell (arr h img) (i, j))
            \<and> arr h' img = arr h img"
    by (intro exI [of _ h'] exI [of _ "fresh h"] exI [of _ n]) auto
qed

theorem solvers_keep_shape_and_unmasked_cells_witness:
  "(\<exists>h' r n. inpaint_jacobi (single_object ring) 0 center_mask (1 / 10) 1000 1 = Inr (h', r, n)
      \<and> shape (arr h' r) = (3, 3) \<and> cell (arr h' r) (0, 2) = 4 \<and> arr h' 0 = ring)
   \<and> (\<exists>h' r n. inpaint_sor (single_object ring) 0 center_mask (1 / 10) 1000 1 = Inr (h', r, n)
      \<and> shape (arr h' r) = (3, 3) \<and> cell (arr h' r) (0, 2) = 4 \<and> arr h' 0 = ring)"
proof -
  have sh: "shape center_mask = shape (arr (single_object ring) 0)"
    by (simp add: shape_def center_mask_def ring_def)
  have al: "0 < fresh (single_object ring)" by simp
  have c: "\<not> cell center_mask (0, 2)" "(0::nat) < nrows ring" "(2::nat) < ncols ring"
    "cell ring (0, 2) = 4" "shape ring = (3, 3)"
    by (simp_all add: center_mask_def ring_def shape_def)
  from solvers_keep_shape_and_unmasked_cells [OF sh al, of "1 / 10" 1000 1] c
  show ?thesis by (simp only: shape_single_object) metis
qed

section \<open>The search for the relaxation factor\<close>

lemma inpaint_sor_iterations:
  "shape msk = shape (arr h img) \<Longrightarrow>
   iterations (inpaint_sor h img msk tol mi omega) = Inr (sor_iters h img msk tol mi omega)"
  using inpaint_sor_run [of msk h img tol mi omega]
  by (auto simp: iterations_def sor_iters_def)

lemma sor_iters_unmasked:
  assumes "shape msk = shape (arr h img)"
    and "\<forall>i<nrows msk. \<forall>j<ncols msk. \<not> cell msk (i, j)"
    and "0 < mi" and "0 < tol"
  shows "sor_iters h img msk tol mi omega = 1"
proof -
  have "shape (sor_iterate msk omega (arr h img)) = shape msk"
    using assms(1) by (simp add: shape_sor_iterate)
  then have "change (sor_iterate msk omega) msk (arr h img) 0 < tol"
    using assms(2,4) by (simp add: change_def diff_norm_no_cells)
  from run_loop_first [OF assms(3) this] show ?thesis
    by (simp add: sor_iters_run [OF assms(1)])
qed

lemma sor_loop_count:
  "sor_loop msk tol mi omega its h u = Inr (h', r, n) \<Longrightarrow>
   \<forall>it \<in> set its. int it + 1 \<le> mi \<Longrightarrow> n \<le> mi"
proof (induction its arbitrary: h u)
  case Nil
  then show ?case by simp
next
  case (Cons it its)
  from Cons.prems show ?case
    by (auto simp: ndarray_copy_def alloc_def split: sum.splits prod.splits if_splits
        dest: Cons.IH)
qed

lemma inpaint_sor_count:
  assumes "inpaint_sor h img msk tol mi omega = Inr (h', r, n)"
  shows "n \<le> mi"
proof -
  have "\<forall>it \<in> set [0..<nat mi]. int it + 1 \<le> mi" by auto
  with assms show ?thesis
    by (auto simp: inpaint_sor_def ndarray_copy_def alloc_def dest: sor_loop_count)
qed

lemma first_minimum_exists:
  fixes c :: "real \<Rightarrow> int"
  assumes "ws \<noteq> []"
  shows "\<exists>k<length ws. (\<forall>j<k. c (ws ! k) < c (ws ! j)) \<and> (\<forall>j<length ws. c (ws ! k) \<le> c (ws ! j))"
proof -
  let ?m = "Min (c ` set ws)"
  have fin: "finite (c ` set ws)" and ne: "c ` set ws \<noteq> {}" using assms by simp_all
  have "?m \<in> c ` set ws" using fin ne by (rule Min_in)
  then have ex: "\<exists>k. k < length ws \<and> c (ws ! k) = ?m"
    by (auto simp: in_set_conv_nth)
  define k where "k = (LEAST k. k < length ws \<and> c (ws ! k) = ?m)"
  have k: "k < length ws \<and> c (ws ! k) = ?m"
    unfolding k_def using ex by (rule LeastI_ex)
  have least: "?m \<le> c (ws ! j)" if "j < length ws" for j
    using that fin by (intro Min_le) auto
  have before: "c (ws ! k) < c (ws ! j)" if "j < k" for j
  proof -
    have "j < length ws" using that k by simp
    moreover have "\<not> (j < length ws \<and> c (ws ! j) = ?m)"
      using that unfolding k_def by (rule not_less_Least)
    ultimately have "c (ws ! j) \<noteq> ?m" by simp
    with least [OF \<open>j < length ws\<close>] k show ?thesis by simp
  qed
  from k least before show ?thesis by auto
qed

text \<open>
  Claim C2. For an image and a mask of the same shape and a sequence \<open>ws\<close> of candidates,
  let \<open>c w\<close> be the iteration count that \<^verbatim>\<open>inpaint_sor\<close> reports for the candidate
  \<open>w\<close> with the cap \<open>nIter\<close>. If the candidate at position \<open>k\<close> has a count strictly below
  \<open>nIter\<close> and strictly below the count of every earlier candidate, and no candidate has a
  smaller count, the search returns that candidate with its count. If no candidate has a
  count strictly below \<open>nIter\<close>, the search returns \<open>None\<close> with \<open>nIter\<close>. One of
  the two cases always applies: where some candidate has a count strictly below \<open>nIter\<close>,
  there is a position \<open>k\<close> as described.
\<close>

theorem find_optimal_omega_sor_selects_first_minimum:
  assumes "shape msk = shape (arr h img)" and "img < fresh h"
  shows "(\<forall>w. iterations (inpaint_sor h img msk abstol nIter w)
               = Inr (sor_iters h img msk abstol nIter w))
       \<and> (\<forall>k. k < length ws
            \<and> sor_iters h img msk abstol nIter (ws ! k) < nIter
            \<and> (\<forall>j<k. sor_iters h img msk abstol nIter (ws ! k)
                       < sor_iters h img msk abstol nIter (ws ! j))
            \<and> (\<forall>j<length ws. sor_iters h img msk abstol nIter (ws ! k)
                       \<le> sor_iters h img msk abstol nIter (ws ! j))
          \<longrightarrow> outcome (find_optimal_omega_sor h img msk (Some ws) nIter abstol)
                = Inr (Some (ws ! k), sor_iters h img msk abstol nIter (ws ! k)))
       \<and> ((\<forall>j<length ws. \<not> sor_iters h img msk abstol nIter (ws ! j) < nIter)
          \<longrightarrow> outcome (find_optimal_omega_sor h img msk (Some ws) nIter abstol)
                = Inr (None, nIter))
       \<and> ((\<exists>j<length ws. sor_iters h img msk abstol nIter (ws ! j) < nIter)
          \<longrightarrow> (\<exists>k<length ws. sor_iters h img msk abstol nIter (ws ! k) < nIter
                \<and> (\<forall>j<k. sor_iters h img msk abstol nIter (ws ! k)
                       < sor_iters h img msk abstol nIter (ws ! j))
                \<and> (\<forall>j<length ws. sor_iters h img msk abstol nIter (ws ! k)
                       \<le> sor_iters h img msk abstol nIter (ws ! j))))"
proof (intro conjI allI impI)
  fix w
  show "iterations (inpaint_sor h img msk abstol nIter w)
          = Inr (sor_iters h img msk abstol nIter w)"
    using assms(1) by (rule inpaint_sor_iterations)
next
  let ?c = "sor_iters h img msk abstol nIter"
  have run: "outcome (find_optimal_omega_sor h img msk (Some ws) nIter abstol)
      = Inr (pick_best ?c ws None nIter)"
    using omega_loop_run [OF assms, of nIter abstol ws None nIter]
    by (auto simp: find_optimal_omega_sor_def outcome_def)
  {
    fix k
    assume "k < length ws \<and> ?c (ws ! k) < nIter
            \<and> (\<forall>j<k. ?c (ws ! k) < ?c (ws ! j))
            \<and> (\<forall>j<length ws. ?c (ws ! k) \<le> ?c (ws ! j))"
    then have "pick_best ?c ws None nIter = (Some (ws ! k), ?c (ws ! k))"
      by (intro pick_best_first_min) auto
    with run show "outcome (find_optimal_omega_sor h img msk (Some ws) nIter abstol)
                = Inr (Some (ws ! k), ?c (ws ! k))"
      by simp
  }
  {
    assume "\<forall>j<length ws. \<not> ?c (ws ! j) < nIter"
    then have "\<forall>x \<in> set ws. \<not> ?c x < nIter" by (auto simp: in_set_conv_nth)
    then have "pick_best ?c ws None nIter = (None, nIter)" by (rule pick_best_none)
    with run show "outcome (find_optimal_omega_sor h img msk (Some ws) nIter abstol)
                = Inr (None, nIter)"
      by simp
  }
  {
    assume "\<exists>j<length ws. ?c (ws ! j) < nIter"
    then obtain j where j: "j < length ws" "?c (ws ! j) < nIter" by blast
    then have "ws \<noteq> []" by auto
    from first_minimum_exists [OF this, of ?c] obtain k where
      k: "k < length ws" "\<forall>j<k. ?c (ws ! k) < ?c (ws ! j)" "\<forall>j<length ws. ?c (ws ! k) \<le> ?c (ws ! j)"
      by blast
    with j have "?c (ws ! k) < nIter" by force
    with k show "\<exists>k<length ws. ?c (ws ! k) < nIter
                \<and> (\<forall>j<k. ?c (ws ! k) < ?c (ws ! j))
                \<and> (\<forall>j<length ws. ?c (ws ! k) \<le> ?c (ws ! j))"
      by blast
  }
qed

theorem find_optimal_omega_sor_selects_first_minimum_witness:
  "outcome (find_optimal_omega_sor (single_object ring) 0 (full 3 3 False) (Some [1, 3 / 2]) 1000 (1 / 10))
     = Inr (Some 1, 1)
   \<and> outcome (find_optimal_omega_sor (single_object ring) 0 (full 3 3 False) (Some [1, 3 / 2]) 1 (1 / 10))
     = Inr (None, 1)"
proof -
  have sh: "shape (full 3 3 False) = shape (arr (single_object ring) 0)"
    by (simp add: shape_def ring_def full_def)
  have al: "0 < fresh (single_object ring)" by simp
  have none: "\<forall>i<nrows (full 3 3 False). \<forall>j<ncols (full 3 3 False). \<not> cell (full 3 3 False) (i, j)"
    by (simp add: full_def)
  have c: "sor_iters (single_object ring) 0 (full 3 3 False) (1 / 10) 1000 w = 1"
    "sor_iters (single_object ring) 0 (full 3 3 False) (1 / 10) 1 w = 1" for w
    by (rule sor_iters_unmasked [OF sh none]; simp)+
  note first = find_optimal_omega_sor_selects_first_minimum
    [OF sh al, where ws = "[1, 3 / 2]" and nIter = 1000 and abstol = "1 / 10",
     THEN conjunct2, THEN conjunct1, THEN spec, of 0]
  note nobody = find_optimal_omega_sor_selects_first_minimum
    [OF sh al, where ws = "[1, 3 / 2]" and nIter = 1 and abstol = "1 / 10",
     THEN conjunct2, THEN conjunct2, THEN conjunct1]
  have "outcome (find_optimal_omega_sor (single_object ring) 0 (full 3 3 False) (Some [1, 3 / 2]) 1000 (1 / 10))
     = Inr (Some 1, 1)"
    using first by (simp add: c)
  moreover
  have "outcome (find_optimal_omega_sor (single_object ring) 0 (full 3 3 False) (Some [1, 3 / 2]) 1 (1 / 10))
     = Inr (None, 1)"
    using nobody by (simp add: c)
  ultimately show ?thesis ..
qed

text \<open>
  Claim C6, as the code has it. For a singleton candidate list \<open>[w]\<close>: when
  \<^verbatim>\<open>inpaint_sor\<close> on the same inputs with \<open>omega = w\<close> returns the count \<open>n\<close>, the
  search returns \<open>(w, n)\<close> if \<open>n\<close> is strictly below the cap \<open>nIter\<close>, and \<open>(None, n)\<close>
  otherwise, where \<open>n\<close> is the cap itself. The store after the search is the store after
  that one run of the solver.
\<close>

theorem singleton_search:
  assumes "inpaint_sor h img msk abstol nIter w = Inr (h1, r, n)"
  shows "find_optimal_omega_sor h img msk (Some [w]) nIter abstol
           = Inr (h1, if n < nIter then Some w else None, n)
       \<and> n \<le> nIter"
  using assms inpaint_sor_count [OF assms] by (simp add: find_optimal_omega_sor_def)

theorem singleton_search_witness:
  "outcome (find_optimal_omega_sor (single_object ring) 0 (full 3 3 False) (Some [3 / 2]) 1000 (1 / 10))
     = Inr (Some (3 / 2), 1)"
proof -
  have sh: "shape (full 3 3 False) = shape (arr (single_object ring) 0)"
    by (simp add: shape_def ring_def full_def)
  have none: "\<forall>i<nrows (full 3 3 False). \<forall>j<ncols (full 3 3 False). \<not> cell (full 3 3 False) (i, j)"
    by (simp add: full_def)
  have "sor_iters (single_object ring) 0 (full 3 3 False) (1 / 10) 1000 (3 / 2) = 1"
    by (rule sor_iters_unmasked [OF sh none]; simp)
  with inpaint_sor_run [OF sh, of "1 / 10" 1000 "3 / 2"] sor_iters_run [OF sh, of "1 / 10" 1000 "3 / 2"]
  obtain h1 where
    "inpaint_sor (single_object ring) 0 (full 3 3 False) (1 / 10) 1000 (3 / 2)
       = Inr (h1, fresh (single_object ring), 1)"
    by auto
  from singleton_search [OF this] show ?thesis by (simp add: outcome_def)
qed

text \<open>
  The claim as stated fails where the one candidate does not beat the cap: with the cap 1,
  \<^verbatim>\<open>inpaint_sor\<close> reports the count 1 for the candidate 3/2, and the search returns
  \<open>None\<close>, not the candidate.
\<close>

theorem singleton_search_counterexample:
  "iterations (inpaint_sor (single_object ring) 0 (full 3 3 False) (1 / 10) 1 (3 / 2)) = Inr 1
   \<and> outcome (find_optimal_omega_sor (single_object ring) 0 (full 3 3 False) (Some [3 / 2]) 1 (1 / 10))
       = Inr (None, 1)
   \<and> outcome (find_optimal_omega_sor (single_object ring) 0 (full 3 3 False) (Some [3 / 2]) 1 (1 / 10))
       \<noteq> Inr (Some (3 / 2), 1)"
proof -
  have sh: "shape (full 3 3 False) = shape (arr (single_object ring) 0)"
    by (simp add: shape_def ring_def full_def)
  have none: "\<forall>i<nrows (full 3 3 False). \<forall>j<ncols (full 3 3 False). \<not> cell (full 3 3 False) (i, j)"
    by (simp add: full_def)
  have c: "sor_iters (single_object ring) 0 (full 3 3 False) (1 / 10) 1 (3 / 2) = 1"
    by (rule sor_iters_unmasked [OF sh none]; simp)
  have al: "0 < fresh (single_object ring)" by simp
  have "outcome (find_optimal_omega_sor (single_object ring) 0 (full 3 3 False) (Some [3 / 2]) 1 (1 / 10))
      = Inr (pick_best (sor_iters (single_object ring) 0 (full 3 3 False) (1 / 10) 1) [3 / 2] None 1)"
    using omega_loop_run [OF sh al, of 1 "1 / 10" "[3 / 2]" None 1]
    by (auto simp: find_optimal_omega_sor_def outcome_def)
  then show ?thesis
    using inpaint_sor_iterations [OF sh, of "1 / 10" 1 "3 / 2"] by (simp add: c)
qed

section \<open>The steppers on their own\<close>

lemma sor_values_fold:
  assumes "shape msk = shape u"
  shows "sor_values u msk omega
    = Inr (fold (sor_cell msk omega) (List.product [1..<nrows u - 1] [1..<ncols u - 1]) u)"
proof -
  have "\<forall>i \<in> set [1..<nrows u - 1]. i < nrows msk" "\<forall>j \<in> set [1..<ncols u - 1]. j < ncols msk"
    using assms by (auto simp: shape_def)
  then show ?thesis unfolding sor_values_def by (rule sor_rows_fold)
qed

text \<open>
  Claim C4. For a grid and a mask of the same shape, \<^verbatim>\<open>step_sor_2D\<close> updates the
  grid object in place and returns the same reference. The new contents are those of
  visiting the cells \<open>(1, 1)\<close> to \<open>(rows - 2, cols - 2)\<close> one after the other in row-major
  order. No cell of the outermost border changes, whatever the mask. An interior cell
  where the mask is true becomes \<open>(1 - omega) * old + omega * mean\<close>, where the mean takes
  the upper and the left neighbour from the new contents (they were visited before, or
  lie on the border) and the lower and the right neighbour from the old contents; an
  interior cell where the mask is false keeps its value.
\<close>

theorem step_sor_2D_sweep:
  assumes "shape msk = shape (arr h u)"
  shows "\<exists>g'. step_sor_2D h u msk omega = Inr (store h u g', u)
       \<and> shape g' = shape (arr h u)
       \<and> g' = fold (sor_cell msk omega)
                (List.product [1..<nrows (arr h u) - 1] [1..<ncols (arr h u) - 1]) (arr h u)
       \<and> (\<forall>i j. i = 0 \<or> j = 0 \<or> nrows (arr h u) \<le> i + 1 \<or> ncols (arr h u) \<le> j + 1
             \<longrightarrow> cell g' (i, j) = cell (arr h u) (i, j))
       \<and> (\<forall>i j. 1 \<le> i \<and> i + 1 < nrows (arr h u) \<and> 1 \<le> j \<and> j + 1 < ncols (arr h u)
             \<longrightarrow> cell g' (i, j) =
                  (if cell msk (i, j)
                   then (1 - omega) * cell (arr h u) (i, j)
                        + omega * ((cell (arr h u) (i + 1, j) + cell g' (i - 1, j)
                                    + cell (arr h u) (i, j + 1) + cell g' (i, j - 1)) / 4)
                   else cell (arr h u) (i, j)))"
proof -
  let ?g = "arr h u"
  let ?g' = "sor_iterate msk omega ?g"
  have run: "step_sor_2D h u msk omega = Inr (store h u ?g', u)"
    using assms by (simp add: step_sor_2D_def sor_values_ok)
  have sh: "shape ?g' = shape ?g" using assms by (rule shape_sor_iterate)
  have fd: "?g' = fold (sor_cell msk omega)
                (List.product [1..<nrows ?g - 1] [1..<ncols ?g - 1]) ?g"
    using sor_values_fold [OF assms, of omega] sor_values_ok [OF assms, of omega] by simp
  have border: "cell ?g' (i, j) = cell ?g (i, j)"
    if "i = 0 \<or> j = 0 \<or> nrows ?g \<le> i + 1 \<or> ncols ?g \<le> j + 1" for i j
    using that by (subst cell_sor_iterate [OF assms]) auto
  have inner: "cell ?g' (i, j) =
                  (if cell msk (i, j)
                   then (1 - omega) * cell ?g (i, j)
                        + omega * ((cell ?g (i + 1, j) + cell ?g' (i - 1, j)
                                    + cell ?g (i, j + 1) + cell ?g' (i, j - 1)) / 4)
                   else cell ?g (i, j))"
    if "1 \<le> i \<and> i + 1 < nrows ?g \<and> 1 \<le> j \<and> j + 1 < ncols ?g" for i j
    using that by (subst cell_sor_iterate [OF assms]) simp
  from run sh fd border inner show ?thesis by blast
qed

theorem step_sor_2D_sweep_witness:
  "\<exists>g'. step_sor_2D (single_object ring) 0 (full 3 3 True) 1 = Inr (store (single_object ring) 0 g', 0)
     \<and> cell g' (0, 1) = 4 \<and> cell g' (1, 0) = 4 \<and> cell g' (1, 1) = 4"
proof -
  have sh: "shape (full 3 3 True) = shape (arr (single_object ring) 0)"
    by (simp add: shape_def ring_def full_def)
  from step_sor_2D_sweep [OF sh, of 1] obtain g' where
    run: "step_sor_2D (single_object ring) 0 (full 3 3 True) 1 = Inr (store (single_object ring) 0 g', 0)" and
    border: "\<And>i j. i = 0 \<or> j = 0 \<or> nrows ring \<le> i + 1 \<or> ncols ring \<le> j + 1
             \<Longrightarrow> cell g' (i, j) = cell ring (i, j)" and
    inner: "\<And>i j. 1 \<le> i \<and> i + 1 < nrows ring \<and> 1 \<le> j \<and> j + 1 < ncols ring
             \<Longrightarrow> cell g' (i, j) =
                  (if cell (full 3 3 True) (i, j)
                   then (1 - 1) * cell ring (i, j)
                        + 1 * ((cell ring (i + 1, j) + cell g' (i - 1, j)
                                    + cell ring (i, j + 1) + cell g' (i, j - 1)) / 4)
                   else cell ring (i, j))"
    by (simp only: shape_single_object) blast
  have a: "cell g' (0, 1) = 4" using border [of 0 1] by (simp add: ring_def)
  have b: "cell g' (1, 0) = 4" using border [of 1 0] by (simp add: ring_def)
  have "cell g' (1, 1) = 4" using inner [of 1 1] a b by (simp add: ring_def full_def)
  with run a b show ?thesis by blast
qed

lemma below_ten: "i < 10 \<Longrightarrow> i \<in> {0, 1, 2, 3, 4, 5, 6, 7, 8, 9 :: nat}"
  by auto

lemma roll_index:
  "i < 10 \<Longrightarrow> (nat ((int i - 1) mod 10) = 0) = (i = 1)"
  "i < 10 \<Longrightarrow> (nat ((int i - (- 1)) mod 10) = 0) = (i = 9)"
  using below_ten [of i] by auto

lemma avg_neighbors_hot_corner:
  assumes "i < 10" and "j < 10"
  shows "cell (avg_neighbors hot_corner) (i, j)
    = (if (i, j) \<in> {(0, 1), (1, 0), (0, 9), (9, 0)} then 25 else 0)"
  using assms roll_index [of i] roll_index [of j]
  by (auto simp: avg_neighbors_def roll_def hot_corner_def)

text \<open>
  Claim C5. One application of the Jacobi stepper with \<open>omega = 1\<close> to the 10 by 10 grid
  of zeros with the value 100 at the corner \<open>(0, 0)\<close>, masked everywhere except at that
  corner, gives a 10 by 10 grid with the value 25 at the four wrap-around neighbours
  \<open>(0, 1)\<close>, \<open>(1, 0)\<close>, \<open>(0, 9)\<close> and \<open>(9, 0)\<close> of the corner, 0 at every other masked cell,
  and 100 at the corner.
\<close>

theorem step_jacobi_2D_hot_corner:
  assumes "arr h u = hot_corner"
  shows "\<exists>h' r. step_jacobi_2D h u corner_mask 1 = Inr (h', r)
       \<and> shape (arr h' r) = (10, 10)
       \<and> (\<forall>i<10. \<forall>j<10. cell (arr h' r) (i, j) =
            (if (i, j) \<in> {(0, 1), (1, 0), (0, 9), (9, 0)} then 25
             else if (i, j) = (0, 0) then 100 else 0))"
proof -
  have sh: "shape corner_mask = shape (arr h u)"
    using assms by (simp add: shape_def corner_mask_def hot_corner_def)
  let ?g' = "jacobi_iterate corner_mask 1 hot_corner"
  have run: "step_jacobi_2D h u corner_mask 1
      = Inr (h\<lparr>arr := (arr h)(fresh h := ?g'), fresh := Suc (fresh h)\<rparr>, fresh h)"
    using step_jacobi_2D_ok [OF sh, of 1] assms by simp
  have shape: "shape ?g' = (10, 10)"
    by (simp add: shape_jacobi_iterate) (simp add: shape_def hot_corner_def)
  have sh': "shape corner_mask = shape hot_corner" using sh assms by simp
  have cells: "cell ?g' (i, j) =
            (if (i, j) \<in> {(0, 1), (1, 0), (0, 9), (9, 0)} then 25
             else if (i, j) = (0, 0) then 100 else 0)" if "i < 10" "j < 10" for i j
  proof -
    have "(i, j) \<in> set (indices hot_corner)"
      using that by (simp add: set_indices hot_corner_def)
    then show ?thesis
      using that
      by (simp add: cell_jacobi_iterate [OF sh'] avg_neighbors_hot_corner)
         (auto simp: corner_mask_def hot_corner_def)
  qed
  from run shape cells show ?thesis by simp
qed

theorem step_jacobi_2D_hot_corner_witness:
  "\<exists>h' r. step_jacobi_2D (single_object hot_corner) 0 corner_mask 1 = Inr (h', r)
     \<and> cell (arr h' r) (0, 1) = 25 \<and> cell (arr h' r) (9, 0) = 25
     \<and> cell (arr h' r) (0, 0) = 100 \<and> cell (arr h' r) (5, 5) = 0"
proof -
  have "arr (single_object hot_corner) 0 = hot_corner" by simp
  from step_jacobi_2D_hot_corner [OF this] obtain h' r where
    run: "step_jacobi_2D (single_object hot_corner) 0 corner_mask 1 = Inr (h', r)" and
    cells: "\<And>i j. i < 10 \<Longrightarrow> j < 10 \<Longrightarrow> cell (arr h' r) (i, j) =
            (if (i, j) \<in> {(0, 1), (1, 0), (0, 9), (9, 0)} then 25
             else if (i, j) = (0, 0) then 100 else 0)"
    by blast
  have "cell (arr h' r) (0, 1) = 25" "cell (arr h' r) (9, 0) = 25"
    "cell (arr h' r) (0, 0) = 100" "cell (arr h' r) (5, 5) = 0"
    using cells [of 0 1] cells [of 9 0] cells [of 0 0] cells [of 5 5] by simp_all
  with run show ?thesis by blast
qed

section \<open>Inputs outside the data model\<close>

lemma shape_sor_cols:
  "sor_cols msk omega i js u = Inr u' \<Longrightarrow> shape u' = shape u"
  by (induction js arbitrary: u) (auto simp: shape_sor_cell split: if_splits)

lemma shape_sor_rows:
  "sor_rows msk omega is js u = Inr u' \<Longrightarrow> shape u' = shape u"
proof (induction "is" arbitrary: u)
  case Nil
  then show ?case by simp
next
  case (Cons i "is")
  then show ?case
    by (auto split: sum.splits dest!: shape_sor_cols)
qed

lemma shape_sor_values:
  "sor_values u msk omega = Inr u' \<Longrightarrow> shape u' = shape u"
  unfolding sor_values_def by (rule shape_sor_rows)

lemma masked_diff_err:
  "shape m \<noteq> shape a \<Longrightarrow> masked_diff a b m = Inl IndexError"
  by (simp add: masked_diff_def bool_index_def)

lemma only_IndexError: "e = IndexError"
  by (cases e) simp

lemma inpaint_jacobi_no_iterations:
  "max_iter \<le> 0 \<Longrightarrow>
   inpaint_jacobi h img msk tol max_iter omega
     = Inr (h\<lparr>arr := (arr h)(fresh h := arr h img), fresh := Suc (fresh h)\<rparr>, fresh h, max_iter)"
  by (simp add: inpaint_jacobi_def ndarray_copy_def alloc_def)

lemma inpaint_sor_no_iterations:
  "max_iter \<le> 0 \<Longrightarrow>
   inpaint_sor h img msk tol max_iter omega
     = Inr (h\<lparr>arr := (arr h)(fresh h := arr h img), fresh := Suc (fresh h)\<rparr>, fresh h, max_iter)"
  by (simp add: inpaint_sor_def ndarray_copy_def alloc_def)

lemma inpaint_jacobi_mismatch:
  assumes "shape msk \<noteq> shape (arr h img)" and "0 < max_iter"
  shows "inpaint_jacobi h img msk tol max_iter omega = Inl IndexError"
proof -
  have its: "[0..<nat max_iter] = 0 # [1..<nat max_iter]"
    using assms(2) by (simp add: upt_conv_Cons)
  show ?thesis
    using assms(1)
    by (simp add: inpaint_jacobi_def ndarray_copy_def alloc_def its step_jacobi_2D_def
        jacobi_values_err)
qed

lemma sor_loop_mismatch:
  assumes "shape msk \<noteq> shape (arr h u)" and "u < fresh h"
  shows "sor_loop msk tol mi omega (it # its) h u = Inl IndexError"
proof -
  let ?h1 = "h\<lparr>arr := (arr h)(fresh h := arr h u), fresh := Suc (fresh h)\<rparr>"
  have ne: "u \<noteq> fresh h" using assms(2) by simp
  have cp: "ndarray_copy h u = (?h1, fresh h)" by (simp add: ndarray_copy_def alloc_def)
  have old: "arr ?h1 u = arr h u" using ne by simp
  show ?thesis
  proof (cases "sor_values (arr h u) msk omega")
    case (Inl e)
    then have "step_sor_2D ?h1 u msk omega = Inl IndexError"
      unfolding step_sor_2D_def old by (simp add: only_IndexError [of e])
    then show ?thesis by (simp add: cp)
  next
    case (Inr a)
    then have step: "step_sor_2D ?h1 u msk omega = Inr (store ?h1 u a, u)"
      unfolding step_sor_2D_def old by simp
    have "shape msk \<noteq> shape a" using Inr assms(1) by (simp add: shape_sor_values)
    moreover have "arr (store ?h1 u a) u = a" by (simp add: store_def)
    ultimately have "masked_diff (arr (store ?h1 u a) u) b msk = Inl IndexError" for b
      by (simp add: masked_diff_err)
    then show ?thesis by (simp add: cp step)
  qed
qed

lemma inpaint_sor_mismatch:
  assumes "shape msk \<noteq> shape (arr h img)" and "0 < max_iter"
  shows "inpaint_sor h img msk tol max_iter omega = Inl IndexError"
proof -
  have its: "[0..<nat max_iter] = 0 # [1..<nat max_iter]"
    using assms(2) by (simp add: upt_conv_Cons)
  let ?h0 = "h\<lparr>arr := (arr h)(fresh h := arr h img), fresh := Suc (fresh h)\<rparr>"
  have cp: "ndarray_copy h img = (?h0, fresh h)" by (simp add: ndarray_copy_def alloc_def)
  have a: "shape msk \<noteq> shape (arr ?h0 (fresh h))" using assms(1) by simp
  have b: "fresh h < fresh ?h0" by simp
  have "sor_loop msk tol max_iter omega (0 # [1..<nat max_iter]) ?h0 (fresh h) = Inl IndexError"
    using a b by (rule sor_loop_mismatch)
  then show ?thesis
    unfolding inpaint_sor_def cp its by simp
qed

text \<open>
  Claim C7, as the code has it. The solvers make no shape check of their own and know no
  \<^verbatim>\<open>InvalidShape\<close> error. For an image and a mask of different shapes (the mask with
  at least one row and one column), a call with \<open>max_iter \<le> 0\<close> returns normally, a copy
  of the image with the count \<open>max_iter\<close>; a call with \<open>max_iter \<ge> 1\<close> fails inside the
  first iteration with numpy's \<^verbatim>\<open>IndexError\<close>.
\<close>

theorem mismatched_shapes_fail_in_first_iteration:
  assumes "shape msk \<noteq> shape (arr h img)" and "0 < nrows msk" and "0 < ncols msk"
  shows "(max_iter \<le> 0 \<longrightarrow>
            (\<exists>h' r. inpaint_jacobi h img msk tol max_iter omega = Inr (h', r, max_iter)
                \<and> arr h' r = arr h img)
          \<and> (\<exists>h' r. inpaint_sor h img msk tol max_iter omega = Inr (h', r, max_iter)
                \<and> arr h' r = arr h img))
       \<and> (0 < max_iter \<longrightarrow>
            inpaint_jacobi h img msk tol max_iter omega = Inl IndexError
          \<and> inpaint_sor h img msk tol max_iter omega = Inl IndexError)"
  using assms(1)
  by (auto simp: inpaint_jacobi_no_iterations inpaint_sor_no_iterations
      inpaint_jacobi_mismatch inpaint_sor_mismatch)

theorem mismatched_shapes_fail_in_first_iteration_witness:
  "inpaint_jacobi (single_object (zeros 5 5)) 0 (full 3 5 True) (1 / 10) 1000 1 = Inl IndexError
   \<and> inpaint_sor (single_object (zeros 5 5)) 0 (full 3 5 True) (1 / 10) 1000 1 = Inl IndexError
   \<and> (\<exists>h' r. inpaint_jacobi (single_object (zeros 5 5)) 0 (full 3 5 True) (1 / 10) 0 1 = Inr (h', r, 0))
   \<and> (\<exists>h' r. inpaint_sor (single_object (zeros 5 5)) 0 (full 3 5 True) (1 / 10) 0 1 = Inr (h', r, 0))"
proof -
  have sh: "shape (full 3 5 True) \<noteq> shape (arr (single_object (zeros 5 5)) 0)" by simp
  have r: "0 < nrows (full 3 5 True)" and c: "0 < ncols (full 3 5 True)"
    by (simp_all add: full_def)
  note m = mismatched_shapes_fail_in_first_iteration [OF sh r c, where tol = "1 / 10" and omega = 1]
  from m [of 1000] m [of 0] show ?thesis by simp blast
qed

text \<open>
  The claim as stated fails: with a 5 by 5 image, a 3 by 5 mask and \<open>max_iter = 0\<close> both
  solvers return normally with the count 0; nothing is rejected.
\<close>

theorem mismatched_shapes_counterexample:
  "iterations (inpaint_jacobi (single_object (zeros 5 5)) 0 (full 3 5 True) (1 / 10) 0 1) = Inr 0
   \<and> iterations (inpaint_sor (single_object (zeros 5 5)) 0 (full 3 5 True) (1 / 10) 0 1) = Inr 0
   \<and> shape (full 3 5 True) \<noteq> shape (arr (single_object (zeros 5 5)) 0)"
  by (simp add: inpaint_jacobi_no_iterations inpaint_sor_no_iterations iterations_def)

text \<open>
  Claim C8, at a negative cap. With \<open>max_iter = - 1\<close> neither loop runs, and both solvers
  return a copy of the image, unchanged, together with \<open>max_iter\<close> itself: the count
  \<open>- 1\<close>, not 0.
\<close>

theorem negative_cap_is_returned_as_count:
  "(\<exists>h' r. inpaint_jacobi (single_object ring) 0 center_mask (1 / 10) (- 1) 1 = Inr (h', r, - 1)
       \<and> arr h' r = ring)
   \<and> (\<exists>h' r. inpaint_sor (single_object ring) 0 center_mask (1 / 10) (- 1) 1 = Inr (h', r, - 1)
       \<and> arr h' r = ring)
   \<and> iterations (inpaint_jacobi (single_object ring) 0 center_mask (1 / 10) (- 1) 1) \<noteq> Inr 0
   \<and> iterations (inpaint_sor (single_object ring) 0 center_mask (1 / 10) (- 1) 1) \<noteq> Inr 0"
  by (simp add: inpaint_jacobi_no_iterations inpaint_sor_no_iterations iterations_def)

end
